theory Spec2Isabelle
  imports Main "HOL-Library.Word"
begin

unbundle bit_operations_syntax

section \<open>Go values used by the storage layer\<close>

text \<open>
  A Go \<open>string\<close> is a sequence of bytes, which is what \<open>string\<close> (a list of 8-bit
  characters) is here. \<open>int64\<close> and \<open>time.Duration\<close> are 64-bit words read as two's
  complement by \<open>sint\<close>; Go's \<open>int\<close> is taken to be 64 bits wide (amd64, arm64), so the
  conversion \<open>int(id)\<close> of an \<open>int64\<close> changes nothing.
\<close>

type_synonym byte = "8 word"
type_synonym uint32 = "32 word"
type_synonym int64 = "64 word"
type_synonym Duration = "64 word"

definition byte_of_char :: "char \<Rightarrow> byte" where
  "byte_of_char c = word_of_nat (of_char c)"

definition char_of_byte :: "byte \<Rightarrow> char" where
  "char_of_byte b = char_of (unat b)"

text \<open>The conversions \<open>[]byte(str)\<close> and \<open>string(bs)\<close>.\<close>

definition bytes_of_string :: "string \<Rightarrow> byte list" where
  "bytes_of_string s = map byte_of_char s"

definition string_of_bytes :: "byte list \<Rightarrow> string" where
  "string_of_bytes bs = map char_of_byte bs"

section \<open>crypto/sha1\<close>

text \<open>
  SHA-1 as FIPS 180-4 defines it and as Go's \<open>crypto/sha1\<close> computes it: the message is
  padded to a multiple of 64 bytes, every block is expanded to 80 words and run through
  80 rounds, and the five chaining words are written out big-endian.
\<close>

fun be_word :: "byte list \<Rightarrow> uint32" where
  "be_word [] = 0"
| "be_word (b # bs) = push_bit (8 * length bs) (ucast b) OR be_word bs"

definition be_bytes :: "uint32 \<Rightarrow> byte list" where
  "be_bytes w = [ucast (drop_bit 24 w), ucast (drop_bit 16 w), ucast (drop_bit 8 w), ucast w]"

fun chunks :: "nat \<Rightarrow> 'a list \<Rightarrow> 'a list list" where
  "chunks n [] = []"
| "chunks n xs = (if n = 0 then [xs] else take n xs # chunks n (drop n xs))"

definition sha1_pad :: "byte list \<Rightarrow> byte list" where
  "sha1_pad m =
     m @ [0x80] @ replicate ((119 - length m mod 64) mod 64) 0
       @ map (\<lambda>i. ucast (drop_bit (8 * (7 - i)) (word_of_nat (8 * length m) :: 64 word)))
           [0..<8]"

text \<open>
  The message schedule over a window of the last 16 words:
  \<open>W\<^sub>t = rotl 1 (W\<^sub>t\<^sub>-\<^sub>3 XOR W\<^sub>t\<^sub>-\<^sub>8 XOR W\<^sub>t\<^sub>-\<^sub>1\<^sub>4 XOR W\<^sub>t\<^sub>-\<^sub>1\<^sub>6)\<close>.
\<close>

fun sha1_expand :: "nat \<Rightarrow> uint32 list \<Rightarrow> uint32 list" where
  "sha1_expand 0 win = []"
| "sha1_expand (Suc n) win =
     word_rotl 1 (win ! 13 XOR win ! 8 XOR win ! 2 XOR win ! 0)
       # sha1_expand n (tl win @ [word_rotl 1 (win ! 13 XOR win ! 8 XOR win ! 2 XOR win ! 0)])"

definition schedule :: "uint32 list \<Rightarrow> uint32 list" where
  "schedule blk = blk @ sha1_expand 64 blk"

type_synonym sha1_state = "uint32 \<times> uint32 \<times> uint32 \<times> uint32 \<times> uint32"

definition sha1_round :: "nat \<Rightarrow> uint32 \<Rightarrow> sha1_state \<Rightarrow> sha1_state" where
  "sha1_round t wt s =
     (case s of (a, b, c, d, e) \<Rightarrow>
        let (f, k) =
              (if t < 20 then ((b AND c) OR (NOT b AND d), 0x5A827999)
               else if t < 40 then (b XOR c XOR d, 0x6ED9EBA1)
               else if t < 60 then ((b AND c) OR (b AND d) OR (c AND d), 0x8F1BBCDC)
               else (b XOR c XOR d, 0xCA62C1D6))
        in (word_rotl 5 a + f + e + k + wt, a, word_rotl 30 b, c, d))"

fun sha1_rounds :: "nat \<Rightarrow> uint32 list \<Rightarrow> sha1_state \<Rightarrow> sha1_state" where
  "sha1_rounds t [] s = s"
| "sha1_rounds t (wt # ws) s = sha1_rounds (Suc t) ws (sha1_round t wt s)"

definition sha1_block :: "sha1_state \<Rightarrow> byte list \<Rightarrow> sha1_state" where
  "sha1_block h blk =
     (case h of (h0, h1, h2, h3, h4) \<Rightarrow>
        case sha1_rounds 0 (schedule (map be_word (chunks 4 blk))) h of
          (a, b, c, d, e) \<Rightarrow> (h0 + a, h1 + b, h2 + c, h3 + d, h4 + e))"

definition sha1_init :: sha1_state where
  "sha1_init = (0x67452301, 0xEFCDAB89, 0x98BADCFE, 0x10325476, 0xC3D2E1F0)"

definition sha1_out :: "sha1_state \<Rightarrow> byte list" where
  "sha1_out h =
     (case h of (h0, h1, h2, h3, h4) \<Rightarrow>
        be_bytes h0 @ be_bytes h1 @ be_bytes h2 @ be_bytes h3 @ be_bytes h4)"

definition sha1 :: "byte list \<Rightarrow> byte list" where
  "sha1 m = sha1_out (foldl sha1_block sha1_init (chunks 64 (sha1_pad m)))"

text \<open>
  The hash object: \<open>sha1.New()\<close> has absorbed nothing; \<open>Write\<close> absorbs bytes;
  \<open>Sum(b)\<close> appends the digest of what was absorbed to \<open>b\<close> and returns that slice.
\<close>

record digest =
  written :: "byte list"

definition sha1_New :: digest where
  "sha1_New = \<lparr>written = []\<rparr>"

definition Write :: "digest \<Rightarrow> byte list \<Rightarrow> digest" where
  "Write d p = d\<lparr>written := written d @ p\<rparr>"

definition Sum :: "digest \<Rightarrow> byte list \<Rightarrow> byte list" where
  "Sum d b = b @ sha1 (written d)"

section \<open>redis.go: toSha1\<close>

text \<open>
  \<^verbatim>\<open>func toSha1(str string) string { var ( sha = sha1.New() ); return string(sha.Sum([]byte(str))) }\<close>
\<close>

definition toSha1 :: "string \<Rightarrow> string" where
  "toSha1 str = (let sha = sha1_New in string_of_bytes (Sum sha (bytes_of_string str)))"

text \<open>What a fingerprint of the URL would be: the digest of the bytes of the string.\<close>

definition sha1_of_string :: "string \<Rightarrow> string" where
  "sha1_of_string str = string_of_bytes (Sum (Write sha1_New (bytes_of_string str)) [])"

definition sha1_empty_digest :: string where
  "sha1_empty_digest =
     [CHR 0xda, CHR 0x39, CHR 0xa3, CHR 0xee, CHR 0x5e, CHR 0x6b, CHR 0x4b, CHR 0x0d,
      CHR 0x32, CHR 0x55, CHR 0xbf, CHR 0xef, CHR 0x95, CHR 0x60, CHR 0x18, CHR 0x90,
      CHR 0xaf, CHR 0xd8, CHR 0x07, CHR 0x09]"

section \<open>Numbers as text\<close>

text \<open>
  Positional notation over an alphabet of symbols, most significant symbol first, with no
  leading zero symbol except for zero itself. The base is the length of the alphabet;
  both alphabets used below have at least two symbols, the guard on shorter ones only
  makes the recursion end.
\<close>

function to_symbols :: "string \<Rightarrow> nat \<Rightarrow> string" where
  "to_symbols abc n =
     (if n < length abc \<or> length abc < 2 then [abc ! n]
      else to_symbols abc (n div length abc) @ [abc ! (n mod length abc)])"
  by pat_completeness auto
termination
  by (relation "measure snd") auto

fun index_of :: "'a \<Rightarrow> 'a list \<Rightarrow> nat option" where
  "index_of x [] = None"
| "index_of x (y # ys) = (if x = y then Some 0 else map_option Suc (index_of x ys))"

fun from_symbols :: "string \<Rightarrow> nat \<Rightarrow> string \<Rightarrow> nat option" where
  "from_symbols abc acc [] = Some acc"
| "from_symbols abc acc (c # cs) =
     (case index_of c abc of
        None \<Rightarrow> None
      | Some d \<Rightarrow> from_symbols abc (length abc * acc + d) cs)"

definition decimal :: string where
  "decimal = ''0123456789''"

text \<open>\<open>strconv.FormatInt(n, 10)\<close>, which is also how Redis writes an integer value.\<close>

definition FormatInt :: "int \<Rightarrow> string" where
  "FormatInt n =
     (if n < 0 then CHR ''-'' # to_symbols decimal (nat (- n)) else to_symbols decimal (nat n))"

text \<open>
  \<open>strconv.ParseInt(s, 10, 64)\<close>: an optional sign, then at least one decimal digit and
  nothing else, and the value has to fit a signed 64-bit integer. Every error is \<open>None\<close>.
\<close>

definition ParseInt :: "string \<Rightarrow> int option" where
  "ParseInt s =
     (case s of
        [] \<Rightarrow> None
      | c # cs \<Rightarrow>
          let neg = (c = CHR ''-'');
              ds = (if c = CHR ''-'' \<or> c = CHR ''+'' then cs else s)
          in if ds = [] then None
             else (case from_symbols decimal 0 ds of
                     None \<Rightarrow> None
                   | Some un \<Rightarrow>
                       if \<not> neg \<and> 2 ^ 63 \<le> un then None
                       else if neg \<and> 2 ^ 63 < un then None
                       else Some (if neg then - int un else int un)))"

text \<open>
  What the Redis server takes for an integer (\<open>string2ll\<close>): only the canonical decimal
  text of a signed 64-bit integer, so no plus sign and no leading zeros.
\<close>

definition string2ll :: "string \<Rightarrow> int option" where
  "string2ll s =
     (case ParseInt s of
        None \<Rightarrow> None
      | Some n \<Rightarrow> if FormatInt n = s then Some n else None)"

section \<open>The code encoder (github.com/pilu/go-base62)\<close>

text \<open>
  Modelled from the spec: the package \<open>base62\<close> is imported by \<open>redis.go\<close> and is not
  part of the sources. Section 4.2 of the specification gives its alphabet: 62 symbols,
  the digits, then the lowercase letters, then the uppercase letters.
\<close>

definition alphabet :: string where
  "alphabet = ''0123456789abcdefghijklmnopqrstuvwxyzABCDEFGHIJKLMNOPQRSTUVWXYZ''"

text \<open>
  Modelled from the spec: \<open>base62.Encode\<close>, missing from the sources. Section 4.2: the
  encoding of a non-negative integer is positional, most significant symbol first,
  without leading zero symbols except for zero itself, which is a single symbol; encode
  is undefined for a negative input, which is \<open>None\<close> here.
\<close>

definition Encode :: "int \<Rightarrow> string option" where
  "Encode n = (if n < 0 then None else Some (to_symbols alphabet (nat n)))"

text \<open>
  Modelled from the spec: \<open>base62.Decode\<close>, missing from the sources. Section 4.2: decode
  reads a code back into the integer. A symbol outside the alphabet has no value, which
  is \<open>None\<close> here.
\<close>

definition Decode :: "string \<Rightarrow> int option" where
  "Decode s = map_option int (from_symbols alphabet 0 s)"

section \<open>fmt.Sprintf with one string argument\<close>

text \<open>
  The first \<open>%s\<close> of the format is replaced by the argument; the three formats of
  \<open>redis.go\<close> have exactly one verb.
\<close>

fun Sprintf :: "string \<Rightarrow> string \<Rightarrow> string" where
  "Sprintf [] a = []"
| "Sprintf [c] a = [c]"
| "Sprintf (c # d # rest) a =
     (if c = CHR ''%'' \<and> d = CHR ''s'' then a @ rest else c # Sprintf (d # rest) a)"

section \<open>redis.go: constants and types\<close>

definition URLIDKEY :: string where
  "URLIDKEY = ''next.url.id''"

definition ShortlinkKey :: string where
  "ShortlinkKey = ''shortlink:%s:url''"

definition URLHashKey :: string where
  "URLHashKey = ''urlhash:%s:url''"

definition ShortlinkDetailKey :: string where
  "ShortlinkDetailKey = ''shortlink:%s:detail''"

record URLDetail =
  URL :: string
  CreatedAt :: string
  ExpirationInMinutes :: Duration

text \<open>\<open>time.Minute\<close>, in nanoseconds.\<close>

definition Minute :: Duration where
  "Minute = 60000000000"

text \<open>
  The errors that travel through the storage layer: \<open>redis.Nil\<close> (the key is absent), any
  other error of the Redis client with its message, \<open>errors.New\<close>, the \<open>StatusError\<close> of
  the service (a status code and the error it wraps), the error of \<open>strconv.ParseInt\<close>,
  and the encoder called outside its domain.
\<close>

datatype error =
    redis_Nil
  | redis_Error string
  | errors_New string
  | StatusError int error
  | NumError string
  | Encode_undefined

text \<open>
  \<open>StatusError\<close> is declared outside \<open>redis.go\<close>; the notes of the repository give the
  declaration: a struct of \<open>Code int\<close> and \<open>Err error\<close> whose method \<open>Status()\<close> returns
  the code, which makes it the one type of the interface \<open>Error\<close>. These are the
  classified errors, every other one is not.
\<close>

fun Status :: "error \<Rightarrow> int option" where
  "Status (StatusError code err) = Some code"
| "Status _ = None"

section \<open>The Redis backend\<close>

text \<open>
  Modelled from the spec: the Redis server and its client \<open>github.com/go-redis/redis\<close>
  are not part of the sources. Section 4.1 of the specification gives the contract:
  \<open>increment\<close> adds 1 to the integer under a key, an absent key counting as 0;
  \<open>getString\<close> returns the value or tells that the key is absent; \<open>setWithTTL\<close>
  stores a value under a key, replacing any other, with an expiration; and every call
  may fail with an error of the backend.

  The state behind \<open>r.Cli\<close>: the keys with their values and the expiration handed over
  when they were set (\<open>None\<close>: a key without one), and the script of faults. Each command
  is one round trip, which consumes the head of the script: \<open>Some msg\<close> makes this round
  trip fail with that error before the server did anything, \<open>None\<close> (or an exhausted
  script) lets it through. Time does not pass in this model: nothing expires between two
  commands.
\<close>

record entry =
  val :: string
  ttl :: "Duration option"

record RedisCli =
  store :: "string \<rightharpoonup> entry"
  faults :: "string option list"

definition next_fault :: "RedisCli \<Rightarrow> string option" where
  "next_fault r = (case faults r of [] \<Rightarrow> None | f # _ \<Rightarrow> f)"

definition roundtrip :: "RedisCli \<Rightarrow> string option \<times> RedisCli" where
  "roundtrip r = (next_fault r, r\<lparr>faults := tl (faults r)\<rparr>)"

text \<open>\<open>r.Cli.Get(key).Result()\<close>\<close>

definition Get :: "RedisCli \<Rightarrow> string \<Rightarrow> (error + string) \<times> RedisCli" where
  "Get r key =
     (case roundtrip r of
        (Some msg, r') \<Rightarrow> (Inl (redis_Error msg), r')
      | (None, r') \<Rightarrow>
          (case store r' key of
             None \<Rightarrow> (Inl redis_Nil, r')
           | Some e \<Rightarrow> (Inr (val e), r')))"

text \<open>\<open>.Int64()\<close> on the reply of a \<open>Get\<close>\<close>

definition Int64 :: "error + string \<Rightarrow> error + int" where
  "Int64 reply =
     (case reply of
        Inl err \<Rightarrow> Inl err
      | Inr s \<Rightarrow> (case ParseInt s of None \<Rightarrow> Inl (NumError s) | Some n \<Rightarrow> Inr n))"

text \<open>\<open>r.Cli.Set(key, value, expiration).Err()\<close>\<close>

definition Set :: "RedisCli \<Rightarrow> string \<Rightarrow> string \<Rightarrow> Duration \<Rightarrow> error option \<times> RedisCli" where
  "Set r key value expiration =
     (case roundtrip r of
        (Some msg, r') \<Rightarrow> (Some (redis_Error msg), r')
      | (None, r') \<Rightarrow>
          (None, r'\<lparr>store := (store r')(key \<mapsto> \<lparr>val = value, ttl = Some expiration\<rparr>)\<rparr>))"

text \<open>
  \<open>r.Cli.Incr(key)\<close>: an absent key counts as 0; a value that is not an integer and an
  increment beyond the largest 64-bit integer are errors of the server, which leave the
  key as it is.
\<close>

definition Incr :: "RedisCli \<Rightarrow> string \<Rightarrow> (error + int) \<times> RedisCli" where
  "Incr r key =
     (case roundtrip r of
        (Some msg, r') \<Rightarrow> (Inl (redis_Error msg), r')
      | (None, r') \<Rightarrow>
          (case store r' key of
             None \<Rightarrow> (Inr 1, r'\<lparr>store := (store r')(key \<mapsto> \<lparr>val = FormatInt 1, ttl = None\<rparr>)\<rparr>)
           | Some e \<Rightarrow>
               (case string2ll (val e) of
                  None \<Rightarrow> (Inl (redis_Error ''ERR value is not an integer or out of range''), r')
                | Some n \<Rightarrow>
                    if n = 2 ^ 63 - 1
                    then (Inl (redis_Error ''ERR increment or decrement would overflow''), r')
                    else (Inr (n + 1),
                          r'\<lparr>store := (store r')(key \<mapsto> e\<lparr>val := FormatInt (n + 1)\<rparr>)\<rparr>))))"

section \<open>redis.go: Shorten, ShortlinkInfo, Unshorten\<close>

text \<open>
  \<open>Shorten\<close> takes two things from its environment besides the backend:
  \<open>json.Marshal\<close> (the parameter \<open>marshal\<close>) and the text of \<open>time.Now()\<close> (the
  parameter \<open>now\<close>). A Go result \<open>("", err)\<close> is \<open>Inl err\<close>, a result \<open>(s, nil)\<close> is
  \<open>Inr s\<close>; the backend after the call is returned with it.

  Lines 70 to 94, the three records written under the new code:
\<close>

definition Shorten_write ::
  "(URLDetail \<Rightarrow> error + string) \<Rightarrow> string \<Rightarrow> RedisCli \<Rightarrow> string \<Rightarrow> string \<Rightarrow> int64
     \<Rightarrow> (error + string) \<times> RedisCli" where
  "Shorten_write marshal now r eid url exp =
     (case Set r (Sprintf ShortlinkKey eid) url (Minute * exp) of
        (Some err, r1) \<Rightarrow> (Inl err, r1)
      | (None, r1) \<Rightarrow>
     (case Set r1 (Sprintf URLHashKey eid) url (Minute * exp) of
        (Some err, r2) \<Rightarrow> (Inl err, r2)
      | (None, r2) \<Rightarrow>
     (case marshal \<lparr>URL = url, CreatedAt = now, ExpirationInMinutes = exp\<rparr> of
        Inl err \<Rightarrow> (Inl err, r2)
      | Inr detail \<Rightarrow>
     (case Set r2 (Sprintf ShortlinkDetailKey eid) detail (Minute * exp) of
        (Some err, r3) \<Rightarrow> (Inl err, r3)
      | (None, r3) \<Rightarrow> (Inr eid, r3)))))"

text \<open>Lines 59 to 68, the next identifier and its code, and then the writes:\<close>

definition Shorten_alloc ::
  "(URLDetail \<Rightarrow> error + string) \<Rightarrow> string \<Rightarrow> RedisCli \<Rightarrow> string \<Rightarrow> int64
     \<Rightarrow> (error + string) \<times> RedisCli" where
  "Shorten_alloc marshal now r url exp =
     (case Incr r URLIDKEY of
        (Inl err, r1) \<Rightarrow> (Inl err, r1)
      | (Inr _, r1) \<Rightarrow>
     (case Get r1 URLIDKEY of (reply, r2) \<Rightarrow>
     (case Int64 reply of
        Inl err \<Rightarrow> (Inl err, r2)
      | Inr id' \<Rightarrow>
     (case Encode id' of
        None \<Rightarrow> (Inl Encode_undefined, r2)
      | Some eid \<Rightarrow> Shorten_write marshal now r2 eid url exp))))"

text \<open>Lines 44 to 58, the lookup under the fingerprint, and then the rest:\<close>

definition Shorten ::
  "(URLDetail \<Rightarrow> error + string) \<Rightarrow> string \<Rightarrow> RedisCli \<Rightarrow> string \<Rightarrow> int64
     \<Rightarrow> (error + string) \<times> RedisCli" where
  "Shorten marshal now r url exp =
     (let h = toSha1 url in
      case Get r (Sprintf URLHashKey h) of
        (Inl err, r0) \<Rightarrow>
          if err = redis_Nil then Shorten_alloc marshal now r0 url exp
          else (Inl err, r0)
      | (Inr d, r0) \<Rightarrow>
          if d = ''{}'' then Shorten_alloc marshal now r0 url exp
          else (Inr d, r0))"

definition ShortlinkInfo :: "RedisCli \<Rightarrow> string \<Rightarrow> (error + string) \<times> RedisCli" where
  "ShortlinkInfo r eid =
     (case Get r (Sprintf ShortlinkDetailKey eid) of
        (Inl err, r') \<Rightarrow>
          if err = redis_Nil then (Inl (StatusError 404 (errors_New ''Unknown short URL'')), r')
          else (Inl err, r')
      | (Inr d, r') \<Rightarrow> (Inr d, r'))"

definition Unshorten :: "RedisCli \<Rightarrow> string \<Rightarrow> (error + string) \<times> RedisCli" where
  "Unshorten r eid =
     (case Get r (Sprintf ShortlinkKey eid) of
        (Inl err, r') \<Rightarrow>
          if err = redis_Nil then (Inl (StatusError 404 err), r')
          else (Inl err, r')
      | (Inr url, r') \<Rightarrow> (Inr url, r'))"

section \<open>Runs of the service\<close>

text \<open>
  The backend states the service can be in: it starts with no key at all, under any
  script of faults, and changes only through the three operations.
\<close>

definition fresh :: "string option list \<Rightarrow> RedisCli" where
  "fresh fs = \<lparr>store = Map.empty, faults = fs\<rparr>"

inductive reachable :: "RedisCli \<Rightarrow> bool" where
  start: "reachable (fresh fs)"
| shorten: "reachable r \<Longrightarrow> Shorten marshal now r url exp = (res, r') \<Longrightarrow> reachable r'"
| unshorten: "reachable r \<Longrightarrow> Unshorten r eid = (res, r') \<Longrightarrow> reachable r'"
| info: "reachable r \<Longrightarrow> ShortlinkInfo r eid = (res, r') \<Longrightarrow> reachable r'"

text \<open>Calls of \<open>Shorten\<close> one after the other, each with its own clock reading.\<close>

fun Shorten_seq ::
  "(URLDetail \<Rightarrow> error + string) \<Rightarrow> RedisCli \<Rightarrow> (string \<times> string \<times> int64) list
     \<Rightarrow> (error + string) list \<times> RedisCli" where
  "Shorten_seq marshal r [] = ([], r)"
| "Shorten_seq marshal r ((now, url, exp) # calls) =
     (case Shorten marshal now r url exp of (res, r1) \<Rightarrow>
        case Shorten_seq marshal r1 calls of (ress, r2) \<Rightarrow> (res # ress, r2))"

text \<open>The codes among the results.\<close>

fun codes :: "(error + string) list \<Rightarrow> string list" where
  "codes [] = []"
| "codes (Inl err # ress) = codes ress"
| "codes (Inr c # ress) = c # codes ress"

text \<open>The counter as the server reads it: 0 when the key is absent.\<close>

definition counter :: "RedisCli \<Rightarrow> int option" where
  "counter r = (case store r URLIDKEY of None \<Rightarrow> Some 0 | Some e \<Rightarrow> string2ll (val e))"

text \<open>The store after the counter has been incremented to \<open>v\<close>.\<close>

definition bump :: "(string \<rightharpoonup> entry) \<Rightarrow> int \<Rightarrow> (string \<rightharpoonup> entry)" where
  "bump s v =
     s(URLIDKEY \<mapsto>
        (case s URLIDKEY of
           None \<Rightarrow> \<lparr>val = FormatInt v, ttl = None\<rparr>
         | Some e \<Rightarrow> e\<lparr>val := FormatInt v\<rparr>))"

text \<open>The first \<open>k\<close> round trips of a script go through.\<close>

definition passes :: "nat \<Rightarrow> string option list \<Rightarrow> bool" where
  "passes k fs = list_all (\<lambda>f. f = None) (take k fs)"

text \<open>
  The keys that belong to a code, and the shape every backend of the service keeps: the
  counter is absent or holds a non-negative integer, and every other key belongs to a
  code over the alphabet of the encoder.
\<close>

definition key_of :: "string \<Rightarrow> string \<Rightarrow> bool" where
  "key_of c k \<longleftrightarrow>
     k = Sprintf ShortlinkKey c \<or> k = Sprintf URLHashKey c \<or> k = Sprintf ShortlinkDetailKey c"

definition well_formed :: "RedisCli \<Rightarrow> bool" where
  "well_formed r \<longleftrightarrow>
     (\<exists>n. counter r = Some n \<and> 0 \<le> n) \<and>
     (\<forall>k. store r k \<noteq> None \<longrightarrow> k = URLIDKEY \<or> (\<exists>c. set c \<subseteq> set alphabet \<and> key_of c k))"

text \<open>
  The text \<open>json.Marshal\<close> gives for a detail record none of whose characters needs an
  escape; used where a concrete serializer is needed.
\<close>

definition marshal_plain :: "URLDetail \<Rightarrow> error + string" where
  "marshal_plain d =
     Inr (''{\"url\":\"'' @ URL d @ ''\",\"created_at\":\"'' @ CreatedAt d
          @ ''\",\"expiration_in_minutes\":'' @ FormatInt (sint (ExpirationInMinutes d)) @ ''}'')"

text \<open>A serializer that fails, for the error return at lines 85 to 87.\<close>

definition marshal_fails :: "URLDetail \<Rightarrow> error + string" where
  "marshal_fails d = Inl (errors_New ''json: unsupported value'')"

section \<open>Shorten command by command\<close>

text \<open>
  A call of \<open>Shorten\<close> sends up to six commands to the backend, and the backend serves
  the commands of all callers in the order they arrive. The place of a call between two
  of its commands: before the lookup (line 47), before the increment (line 59), before
  the read of the counter (line 64), before each of the three writes (lines 70, 75 and
  89, with the code and then the serialized detail the call holds), and returned.
\<close>

datatype pc =
    Lookup
  | Increment
  | ReadBack
  | WriteURL string
  | WriteHash string
  | WriteDetail string string
  | Done "error + string"

text \<open>
  One command of a call, with the local steps of \<open>redis.go\<close> that follow it up to the
  next command or the return.
\<close>

fun Shorten_cmd ::
  "(URLDetail \<Rightarrow> error + string) \<Rightarrow> string \<Rightarrow> string \<Rightarrow> int64 \<Rightarrow> pc \<Rightarrow> RedisCli
     \<Rightarrow> pc \<times> RedisCli" where
  "Shorten_cmd marshal now url exp Lookup r =
     (case Get r (Sprintf URLHashKey (toSha1 url)) of
        (Inl err, r') \<Rightarrow> if err = redis_Nil then (Increment, r') else (Done (Inl err), r')
      | (Inr d, r') \<Rightarrow> if d = ''{}'' then (Increment, r') else (Done (Inr d), r'))"
| "Shorten_cmd marshal now url exp Increment r =
     (case Incr r URLIDKEY of
        (Inl err, r') \<Rightarrow> (Done (Inl err), r')
      | (Inr _, r') \<Rightarrow> (ReadBack, r'))"
| "Shorten_cmd marshal now url exp ReadBack r =
     (case Get r URLIDKEY of (reply, r') \<Rightarrow>
        (case Int64 reply of
           Inl err \<Rightarrow> (Done (Inl err), r')
         | Inr id' \<Rightarrow>
             (case Encode id' of
                None \<Rightarrow> (Done (Inl Encode_undefined), r')
              | Some eid \<Rightarrow> (WriteURL eid, r'))))"
| "Shorten_cmd marshal now url exp (WriteURL eid) r =
     (case Set r (Sprintf ShortlinkKey eid) url (Minute * exp) of
        (Some err, r') \<Rightarrow> (Done (Inl err), r')
      | (None, r') \<Rightarrow> (WriteHash eid, r'))"
| "Shorten_cmd marshal now url exp (WriteHash eid) r =
     (case Set r (Sprintf URLHashKey eid) url (Minute * exp) of
        (Some err, r') \<Rightarrow> (Done (Inl err), r')
      | (None, r') \<Rightarrow>
          (case marshal \<lparr>URL = url, CreatedAt = now, ExpirationInMinutes = exp\<rparr> of
             Inl err \<Rightarrow> (Done (Inl err), r')
           | Inr detail \<Rightarrow> (WriteDetail eid detail, r')))"
| "Shorten_cmd marshal now url exp (WriteDetail eid detail) r =
     (case Set r (Sprintf ShortlinkDetailKey eid) detail (Minute * exp) of
        (Some err, r') \<Rightarrow> (Done (Inl err), r')
      | (None, r') \<Rightarrow> (Done (Inr eid), r'))"
| "Shorten_cmd marshal now url exp (Done res) r = (Done res, r)"

text \<open>The next \<open>k\<close> commands of one call, with no other caller in between.\<close>

fun Shorten_cmds ::
  "(URLDetail \<Rightarrow> error + string) \<Rightarrow> string \<Rightarrow> string \<Rightarrow> int64 \<Rightarrow> nat \<Rightarrow> pc \<times> RedisCli
     \<Rightarrow> pc \<times> RedisCli" where
  "Shorten_cmds marshal now url exp 0 s = s"
| "Shorten_cmds marshal now url exp (Suc k) s =
     Shorten_cmds marshal now url exp k (Shorten_cmd marshal now url exp (fst s) (snd s))"

text \<open>
  Two calls at once: the schedule tells whose command the backend serves next. Each call
  is its clock reading, its URL and its expiration, as in \<open>Shorten_seq\<close>.
\<close>

datatype turn = First | Second

fun interleave ::
  "(URLDetail \<Rightarrow> error + string) \<Rightarrow> string \<times> string \<times> int64 \<Rightarrow> string \<times> string \<times> int64
     \<Rightarrow> turn list \<Rightarrow> pc \<times> pc \<times> RedisCli \<Rightarrow> pc \<times> pc \<times> RedisCli" where
  "interleave marshal a b [] s = s"
| "interleave marshal (now1, url1, exp1) (now2, url2, exp2) (First # sched) (p1, p2, r) =
     (case Shorten_cmd marshal now1 url1 exp1 p1 r of (p1', r') \<Rightarrow>
        interleave marshal (now1, url1, exp1) (now2, url2, exp2) sched (p1', p2, r'))"
| "interleave marshal (now1, url1, exp1) (now2, url2, exp2) (Second # sched) (p1, p2, r) =
     (case Shorten_cmd marshal now2 url2 exp2 p2 r of (p2', r') \<Rightarrow>
        interleave marshal (now1, url1, exp1) (now2, url2, exp2) sched (p1, p2', r'))"

text \<open>
  Two callers with distinct URLs on an empty backend without faults. Both look up, both
  increment, both read the counter, and then each writes its three records.
\<close>

definition two_callers :: "pc \<times> pc \<times> RedisCli" where
  "two_callers =
     interleave marshal_plain
       (''2019-12-12 12:12:12'', ''https://www.baidu.com'', 60)
       (''2019-12-12 12:12:12'', ''https://example.com'', 60)
       [First, Second, First, Second, First, Second,
        First, First, First, Second, Second, Second]
       (Lookup, Lookup, fresh [])"

section \<open>Facts about SHA-1\<close>

lemma char_of_byte_of_char: "char_of_byte (byte_of_char c) = c"
  by (simp add: char_of_byte_def byte_of_char_def unat_of_nat)

lemma string_of_bytes_of_string: "string_of_bytes (bytes_of_string s) = s"
  by (simp add: string_of_bytes_def bytes_of_string_def char_of_byte_of_char map_idI)

lemma length_be_bytes: "length (be_bytes w) = 4"
  by (simp add: be_bytes_def)

lemma length_sha1: "length (sha1 m) = 20"
  by (simp add: sha1_def sha1_out_def length_be_bytes split: prod.splits)

lemma sha1_expand_add:
  "win \<noteq> [] \<Longrightarrow>
   sha1_expand (k + n) win = sha1_expand k win @ sha1_expand n (drop k (win @ sha1_expand k win))"
proof (induction k arbitrary: win)
  case 0
  then show ?case by simp
next
  case (Suc k)
  let ?x = "word_rotl 1 (win ! 13 XOR win ! 8 XOR win ! 2 XOR win ! 0)"
  from Suc.prems obtain w ws where win: "win = w # ws" by (cases win) auto
  have "tl win @ [?x] \<noteq> []" by simp
  from Suc.IH [OF this] show ?case
    by (simp add: win)
qed

lemma sha1_expand_16:
  assumes "length win = 16" and "sha1_expand 16 win = out"
  shows "sha1_expand (16 + n) win = out @ sha1_expand n out"
proof -
  have "win \<noteq> []" using assms(1) by auto
  moreover have "length (sha1_expand k w) = k" for k w
    by (induction k arbitrary: w) auto
  ultimately show ?thesis
    using sha1_expand_add [of win 16 n] assms by simp
qed

lemma sha1_pad_empty_block:
  "map be_word (chunks 4 (sha1_pad [])) =
     [0x80000000, 0, 0, 0, 0, 0, 0, 0, 0, 0, 0, 0, 0, 0, 0, 0]"
  by code_simp

lemma chunks_pad_empty: "chunks 64 (sha1_pad []) = [sha1_pad []]"
  by code_simp

lemma expand_empty_1:
  "sha1_expand 16 [0x80000000, 0, 0, 0, 0, 0, 0, 0, 0, 0, 0, 0, 0, 0, 0, 0] =
     [1, 0, 0, 2, 0, 0, 4, 0, 2, 8, 0, 0, 16, 0, 10, 32]"
  by code_simp

lemma expand_empty_2:
  "sha1_expand 16 [1, 0, 0, 2, 0, 0, 4, 0, 2, 8, 0, 0, 16, 0, 10, 32] =
     [6, 0, 64, 8, 40, 128, 8, 0, 264, 0, 160, 512, 100, 0, 1032, 136]"
  by code_simp

lemma expand_empty_3:
  "sha1_expand 16 [6, 0, 64, 8, 40, 128, 8, 0, 264, 0, 160, 512, 100, 0, 1032, 136] =
     [668, 2048, 128, 40, 4232, 0, 2624, 8192, 1640, 128, 16520, 2176, 10440, 32768, 2216,
      128]"
  by code_simp

lemma expand_empty_4:
  "sha1_expand 16 [668, 2048, 128, 40, 4232, 0, 2624, 8192, 1640, 128, 16520, 2176, 10440,
      32768, 2216, 128] =
     [67816, 0, 40960, 131200, 25600, 0, 264192, 34816, 171024, 524288, 32896, 10272,
      1083584, 0, 671936, 2097280]"
  by code_simp

lemma schedule_empty:
  "schedule [0x80000000, 0, 0, 0, 0, 0, 0, 0, 0, 0, 0, 0, 0, 0, 0, 0] =
     [0x80000000, 0, 0, 0, 0, 0, 0, 0, 0, 0, 0, 0, 0, 0, 0, 0,
      1, 0, 0, 2, 0, 0, 4, 0, 2, 8, 0, 0, 16, 0, 10, 32,
      6, 0, 64, 8, 40, 128, 8, 0, 264, 0, 160, 512, 100, 0, 1032, 136,
      668, 2048, 128, 40, 4232, 0, 2624, 8192, 1640, 128, 16520, 2176, 10440, 32768, 2216, 128,
      67816, 0, 40960, 131200, 25600, 0, 264192, 34816, 171024, 524288, 32896, 10272,
      1083584, 0, 671936, 2097280]"
proof -
  have e4: "sha1_expand (16 + 0) [668, 2048, 128, 40, 4232, 0, 2624, 8192, 1640, 128, 16520,
      2176, 10440, 32768, 2216, 128] =
     [67816, 0, 40960, 131200, 25600, 0, 264192, 34816, 171024, 524288, 32896, 10272,
      1083584, 0, 671936, 2097280]"
    using expand_empty_4 by simp
  have e3: "sha1_expand (16 + 16) [6, 0, 64, 8, 40, 128, 8, 0, 264, 0, 160, 512, 100, 0, 1032,
      136] =
     [668, 2048, 128, 40, 4232, 0, 2624, 8192, 1640, 128, 16520, 2176, 10440, 32768, 2216, 128,
      67816, 0, 40960, 131200, 25600, 0, 264192, 34816, 171024, 524288, 32896, 10272,
      1083584, 0, 671936, 2097280]"
    using sha1_expand_16 [OF _ expand_empty_3, of 16] e4 by simp
  have e2: "sha1_expand (16 + 32) [1, 0, 0, 2, 0, 0, 4, 0, 2, 8, 0, 0, 16, 0, 10, 32] =
     [6, 0, 64, 8, 40, 128, 8, 0, 264, 0, 160, 512, 100, 0, 1032, 136,
      668, 2048, 128, 40, 4232, 0, 2624, 8192, 1640, 128, 16520, 2176, 10440, 32768, 2216, 128,
      67816, 0, 40960, 131200, 25600, 0, 264192, 34816, 171024, 524288, 32896, 10272,
      1083584, 0, 671936, 2097280]"
    using sha1_expand_16 [OF _ expand_empty_2, of 32] e3 by simp
  have e1: "sha1_expand (16 + 48) [0x80000000, 0, 0, 0, 0, 0, 0, 0, 0, 0, 0, 0, 0, 0, 0, 0] =
     [1, 0, 0, 2, 0, 0, 4, 0, 2, 8, 0, 0, 16, 0, 10, 32,
      6, 0, 64, 8, 40, 128, 8, 0, 264, 0, 160, 512, 100, 0, 1032, 136,
      668, 2048, 128, 40, 4232, 0, 2624, 8192, 1640, 128, 16520, 2176, 10440, 32768, 2216, 128,
      67816, 0, 40960, 131200, 25600, 0, 264192, 34816, 171024, 524288, 32896, 10272,
      1083584, 0, 671936, 2097280]"
    using sha1_expand_16 [OF _ expand_empty_1, of 48] e2 by simp
  show ?thesis
    unfolding schedule_def using e1 by simp
qed

lemma rounds_empty:
  "sha1_rounds 0
     [0x80000000, 0, 0, 0, 0, 0, 0, 0, 0, 0, 0, 0, 0, 0, 0, 0,
      1, 0, 0, 2, 0, 0, 4, 0, 2, 8, 0, 0, 16, 0, 10, 32,
      6, 0, 64, 8, 40, 128, 8, 0, 264, 0, 160, 512, 100, 0, 1032, 136,
      668, 2048, 128, 40, 4232, 0, 2624, 8192, 1640, 128, 16520, 2176, 10440, 32768, 2216, 128,
      67816, 0, 40960, 131200, 25600, 0, 264192, 34816, 171024, 524288, 32896, 10272,
      1083584, 0, 671936, 2097280] sha1_init =
     (1928626413, 1855823748, 2577064689, 2234369050, 3959760153)"
  by code_simp

lemma sha1_out_empty:
  "sha1_out (0x67452301 + 1928626413, 0xEFCDAB89 + 1855823748, 0x98BADCFE + 2577064689,
      0x10325476 + 2234369050, 0xC3D2E1F0 + 3959760153) =
     [218, 57, 163, 238, 94, 107, 75, 13, 50, 85, 191, 239, 149, 96, 24, 144, 175, 216, 7, 9]"
  by code_simp

lemma sha1_empty:
  "sha1 [] = [218, 57, 163, 238, 94, 107, 75, 13, 50, 85, 191, 239, 149, 96, 24, 144, 175, 216, 7, 9]"
proof -
  have "sha1_block sha1_init (sha1_pad []) =
          (0x67452301 + 1928626413, 0xEFCDAB89 + 1855823748, 0x98BADCFE + 2577064689,
           0x10325476 + 2234369050, 0xC3D2E1F0 + 3959760153)"
    unfolding sha1_block_def sha1_pad_empty_block schedule_empty rounds_empty
    by (simp only: sha1_init_def prod.case)
  then show ?thesis
    unfolding sha1_def chunks_pad_empty
    by (simp only: foldl.simps sha1_out_empty)
qed

lemma string_of_sha1_empty: "string_of_bytes (sha1 []) = sha1_empty_digest"
  unfolding sha1_empty by code_simp

section \<open>Facts about numbers as text\<close>

declare to_symbols.simps [simp del]

lemma index_of_nth: "distinct abc \<Longrightarrow> d < length abc \<Longrightarrow> index_of (abc ! d) abc = Some d"
proof (induction abc arbitrary: d)
  case Nil
  then show ?case by simp
next
  case (Cons y ys)
  then show ?case by (cases d) auto
qed

lemma from_symbols_append:
  "from_symbols abc acc (xs @ ys) =
     (case from_symbols abc acc xs of None \<Rightarrow> None | Some a \<Rightarrow> from_symbols abc a ys)"
  by (induction xs arbitrary: acc) (auto split: option.splits)

lemma from_to_symbols:
  "distinct abc \<Longrightarrow> 2 \<le> length abc \<Longrightarrow> from_symbols abc 0 (to_symbols abc n) = Some n"
proof (induction abc n rule: to_symbols.induct)
  case (1 abc n)
  show ?case
  proof (cases "n < length abc")
    case True
    with "1.prems" show ?thesis
      by (simp add: to_symbols.simps [of abc n] index_of_nth)
  next
    case False
    with "1.prems" have ih: "from_symbols abc 0 (to_symbols abc (n div length abc)) = Some (n div length abc)"
      using "1.IH" by simp
    have "0 < length abc" using "1.prems" by linarith
    then have "n mod length abc < length abc" by simp
    with False "1.prems" ih show ?thesis
      by (simp add: to_symbols.simps [of abc n] from_symbols_append index_of_nth)
  qed
qed

lemma to_symbols_not_Nil: "to_symbols abc n \<noteq> []"
  by (simp add: to_symbols.simps [of abc n])

lemma set_to_symbols: "2 \<le> length abc \<Longrightarrow> set (to_symbols abc n) \<subseteq> set abc"
proof (induction abc n rule: to_symbols.induct)
  case (1 abc n)
  show ?case
  proof (cases "n < length abc")
    case True
    then show ?thesis by (simp add: to_symbols.simps [of abc n])
  next
    case False
    moreover have "0 < length abc" using "1.prems" by linarith
    then have "n mod length abc < length abc" by simp
    ultimately show ?thesis
      using "1.IH" "1.prems" by (simp add: to_symbols.simps [of abc n])
  qed
qed

lemma length_to_symbols:
  "2 \<le> length abc \<Longrightarrow> n < length abc ^ Suc k \<Longrightarrow> length (to_symbols abc n) \<le> Suc k"
proof (induction k arbitrary: n)
  case 0
  then show ?case by (simp add: to_symbols.simps [of abc n])
next
  case (Suc k)
  show ?case
  proof (cases "n < length abc")
    case True
    then show ?thesis by (simp add: to_symbols.simps [of abc n])
  next
    case False
    from Suc.prems have "n div length abc < length abc ^ Suc k"
      by (simp add: less_mult_imp_div_less mult.commute)
    with Suc.IH Suc.prems(1) have "length (to_symbols abc (n div length abc)) \<le> Suc k"
      by blast
    with False Suc.prems(1) show ?thesis
      by (simp add: to_symbols.simps [of abc n])
  qed
qed

lemma distinct_decimal: "distinct decimal" and length_decimal: "length decimal = 10"
  by (simp_all add: decimal_def)

lemma distinct_alphabet: "distinct alphabet" and length_alphabet: "length alphabet = 62"
  by (simp_all add: alphabet_def)

lemma ParseInt_FormatInt:
  assumes "- (2 ^ 63) \<le> n" and "n < 2 ^ 63"
  shows "ParseInt (FormatInt n) = Some n"
proof (cases "n < 0")
  case True
  have "from_symbols decimal 0 (to_symbols decimal (nat (- n))) = Some (nat (- n))"
    by (rule from_to_symbols) (simp_all add: distinct_decimal length_decimal)
  moreover have "\<not> 2 ^ 63 < nat (- n)" using assms(1) True by (simp add: not_less nat_le_iff)
  ultimately show ?thesis
    using True by (simp add: ParseInt_def FormatInt_def to_symbols_not_Nil)
next
  case False
  let ?ds = "to_symbols decimal (nat n)"
  obtain c cs where ds: "?ds = c # cs"
    using to_symbols_not_Nil [of decimal "nat n"] by (cases ?ds) auto
  have "c \<in> set decimal"
    using set_to_symbols [of decimal "nat n"] ds by (auto simp: length_decimal)
  then have c: "c \<noteq> CHR ''-''" "c \<noteq> CHR ''+''"
    by (auto simp: decimal_def)
  have "from_symbols decimal 0 ?ds = Some (nat n)"
    by (rule from_to_symbols) (simp_all add: distinct_decimal length_decimal)
  moreover have "\<not> 2 ^ 63 \<le> nat n" using assms(2) False by (simp add: not_le nat_less_iff)
  ultimately show ?thesis
    using False c ds by (simp add: ParseInt_def FormatInt_def)
qed

lemma string2ll_FormatInt:
  "- (2 ^ 63) \<le> n \<Longrightarrow> n < 2 ^ 63 \<Longrightarrow> string2ll (FormatInt n) = Some n"
  by (simp add: string2ll_def ParseInt_FormatInt)

lemma string2ll_Some: "string2ll s = Some n \<Longrightarrow> s = FormatInt n \<and> ParseInt s = Some n"
  by (auto simp: string2ll_def split: option.splits if_splits)

lemma ParseInt_range: "ParseInt s = Some n \<Longrightarrow> - (2 ^ 63) \<le> n \<and> n < 2 ^ 63"
  by (auto simp: ParseInt_def Let_def split: list.splits option.splits if_splits)

lemma Decode_Encode: "Encode n = Some c \<Longrightarrow> Decode c = Some n"
  by (auto simp: Encode_def Decode_def from_to_symbols distinct_alphabet length_alphabet
      split: if_splits)

lemma Encode_inj: "Encode n = Some c \<Longrightarrow> Encode n' = Some c \<Longrightarrow> n = n'"
  by (metis Decode_Encode option.inject)

lemma Encode_shape:
  assumes "Encode n = Some c"
  shows "c \<noteq> []" and "set c \<subseteq> set alphabet"
  using assms to_symbols_not_Nil [of alphabet "nat n"] set_to_symbols [of alphabet "nat n"]
  by (auto simp: Encode_def length_alphabet split: if_splits)

lemma Encode_length:
  assumes "Encode n = Some c" and "n < 2 ^ 63"
  shows "length c \<le> 11"
proof -
  from assms have n: "0 \<le> n" and c: "c = to_symbols alphabet (nat n)"
    by (auto simp: Encode_def split: if_splits)
  have "nat n < 2 ^ 63" using assms(2) n by (simp add: nat_less_iff)
  also have "(2::nat) ^ 63 < 62 ^ Suc 10" by simp
  finally have "nat n < length alphabet ^ Suc 10" by (simp add: length_alphabet)
  then show ?thesis
    unfolding c using length_to_symbols [of alphabet "nat n" 10] by (simp add: length_alphabet)
qed

section \<open>Facts about the fingerprint and the keys\<close>

lemma toSha1_eq: "toSha1 s = s @ sha1_empty_digest"
  by (simp add: toSha1_def Sum_def sha1_New_def string_of_bytes_of_string
      string_of_sha1_empty [symmetric] string_of_bytes_def bytes_of_string_def
      char_of_byte_of_char map_idI)

lemma toSha1_not_code: "set c \<subseteq> set alphabet \<Longrightarrow> toSha1 u \<noteq> c"
proof
  assume c: "set c \<subseteq> set alphabet" and eq: "toSha1 u = c"
  have "CHR 0x09 \<in> set (toSha1 u)"
    by (simp add: toSha1_eq sha1_empty_digest_def)
  with c eq have "CHR 0x09 \<in> set alphabet" by auto
  then show False by (simp add: alphabet_def)
qed

lemma Sprintf_ShortlinkKey: "Sprintf ShortlinkKey c = ''shortlink:'' @ c @ '':url''"
  by (simp add: ShortlinkKey_def)

lemma Sprintf_URLHashKey: "Sprintf URLHashKey c = ''urlhash:'' @ c @ '':url''"
  by (simp add: URLHashKey_def)

lemma Sprintf_ShortlinkDetailKey: "Sprintf ShortlinkDetailKey c = ''shortlink:'' @ c @ '':detail''"
  by (simp add: ShortlinkDetailKey_def)

lemmas Sprintf_keys = Sprintf_ShortlinkKey Sprintf_URLHashKey Sprintf_ShortlinkDetailKey

lemma url_not_detail: "c @ '':url'' \<noteq> c' @ '':detail''"
proof
  assume "c @ '':url'' = c' @ '':detail''"
  then have "rev (c @ '':url'') = rev (c' @ '':detail'')" by simp
  then show False by simp
qed

lemma keys_distinct:
  "Sprintf ShortlinkKey c \<noteq> URLIDKEY"
  "Sprintf URLHashKey c \<noteq> URLIDKEY"
  "Sprintf ShortlinkDetailKey c \<noteq> URLIDKEY"
  "URLIDKEY \<noteq> Sprintf ShortlinkKey c"
  "URLIDKEY \<noteq> Sprintf URLHashKey c"
  "URLIDKEY \<noteq> Sprintf ShortlinkDetailKey c"
  "Sprintf ShortlinkKey c \<noteq> Sprintf URLHashKey c'"
  "Sprintf URLHashKey c \<noteq> Sprintf ShortlinkKey c'"
  "Sprintf ShortlinkDetailKey c \<noteq> Sprintf URLHashKey c'"
  "Sprintf URLHashKey c \<noteq> Sprintf ShortlinkDetailKey c'"
  "Sprintf ShortlinkKey c \<noteq> Sprintf ShortlinkDetailKey c'"
  "Sprintf ShortlinkDetailKey c \<noteq> Sprintf ShortlinkKey c'"
  using url_not_detail [of c c'] url_not_detail [of c' c]
  by (simp_all add: Sprintf_keys URLIDKEY_def)

lemma keys_inject:
  "Sprintf ShortlinkKey c = Sprintf ShortlinkKey c' \<longleftrightarrow> c = c'"
  "Sprintf URLHashKey c = Sprintf URLHashKey c' \<longleftrightarrow> c = c'"
  "Sprintf ShortlinkDetailKey c = Sprintf ShortlinkDetailKey c' \<longleftrightarrow> c = c'"
  by (simp_all add: Sprintf_keys)

lemma fingerprint_key_fresh:
  assumes "well_formed r"
  shows "store r (Sprintf URLHashKey (toSha1 u)) = None"
proof (rule ccontr)
  assume "store r (Sprintf URLHashKey (toSha1 u)) \<noteq> None"
  with assms obtain c where "set c \<subseteq> set alphabet" "key_of c (Sprintf URLHashKey (toSha1 u))"
    unfolding well_formed_def using keys_distinct(2) by blast
  then show False
    using toSha1_not_code [of c u] by (auto simp: key_of_def keys_distinct keys_inject)
qed

section \<open>Facts about the backend commands\<close>

lemma Get_store: "Get r k = (res, r') \<Longrightarrow> r' = r\<lparr>faults := tl (faults r)\<rparr>"
  by (auto simp: Get_def roundtrip_def split: option.splits)

lemma Get_result:
  "Get r k = (res, r') \<Longrightarrow>
     res = (case next_fault r of
              Some msg \<Rightarrow> Inl (redis_Error msg)
            | None \<Rightarrow> (case store r k of None \<Rightarrow> Inl redis_Nil | Some e \<Rightarrow> Inr (val e)))"
  by (auto simp: Get_def roundtrip_def split: option.splits)

lemma Set_result:
  "Set r k v d = (res, r') \<Longrightarrow>
     (case next_fault r of
        Some msg \<Rightarrow> res = Some (redis_Error msg) \<and> r' = r\<lparr>faults := tl (faults r)\<rparr>
      | None \<Rightarrow> res = None \<and>
          r' = r\<lparr>faults := tl (faults r), store := (store r)(k \<mapsto> \<lparr>val = v, ttl = Some d\<rparr>)\<rparr>)"
  by (auto simp: Set_def roundtrip_def split: option.splits)

lemma Shorten_write_frame:
  assumes "Shorten_write m now r eid u t = (res, r')" and "\<not> key_of eid k"
  shows "store r' k = store r k"
  using assms
  by (auto simp: Shorten_write_def key_of_def dest!: Set_result
      split: prod.splits option.splits sum.splits)

lemma Shorten_write_code:
  assumes "Shorten_write m now r eid u t = (Inr c, r')"
  shows "c = eid" and "store r' (Sprintf ShortlinkKey c) = Some \<lparr>val = u, ttl = Some (Minute * t)\<rparr>"
  using assms
  by (auto simp: Shorten_write_def keys_distinct dest!: Set_result
      split: prod.splits option.splits sum.splits)

lemma counter_cases:
  assumes "counter r = Some n"
  shows "(store r URLIDKEY = None \<and> n = 0) \<or>
         (\<exists>e. store r URLIDKEY = Some e \<and> val e = FormatInt n \<and> string2ll (val e) = Some n
            \<and> - (2 ^ 63) \<le> n \<and> n < 2 ^ 63)"
  using assms string2ll_Some ParseInt_range
  by (auto simp: counter_def split: option.splits)

lemma Incr_counter:
  assumes "counter r = Some n" and "Incr r URLIDKEY = (res, r')"
  shows "(\<exists>msg. res = Inl (redis_Error msg) \<and> store r' = store r) \<or>
         (n < 2 ^ 63 - 1 \<and> res = Inr (n + 1) \<and>
          (\<exists>e. store r' = (store r)(URLIDKEY \<mapsto> e) \<and> val e = FormatInt (n + 1)))"
  using counter_cases [OF assms(1)] assms(2)
  by (auto simp: Incr_def roundtrip_def split: option.splits if_splits)

lemma counter_upd:
  assumes "store r' URLIDKEY = Some e" and "val e = FormatInt n" and "- (2 ^ 63) \<le> n" and "n < 2 ^ 63"
  shows "counter r' = Some n"
  using assms by (simp add: counter_def string2ll_FormatInt)

section \<open>One call of Shorten\<close>

lemma Shorten_alloc_step:
  assumes cnt: "counter r = Some n" and n: "0 \<le> n"
    and run: "Shorten_alloc m now r u t = (res, r')"
  shows "(isl res \<and> store r' = store r) \<or>
         (n < 2 ^ 63 - 1 \<and> counter r' = Some (n + 1) \<and>
          store r' URLIDKEY \<noteq> store r URLIDKEY \<and>
          (\<exists>eid. Encode (n + 1) = Some eid \<and>
             (\<forall>k. k \<noteq> URLIDKEY \<longrightarrow> \<not> key_of eid k \<longrightarrow> store r' k = store r k) \<and>
             (\<forall>c. res = Inr c \<longrightarrow> c = eid \<and>
                store r' (Sprintf ShortlinkKey c) = Some \<lparr>val = u, ttl = Some (Minute * t)\<rparr>)))"
proof -
  obtain res1 r1 where incr: "Incr r URLIDKEY = (res1, r1)" by (cases "Incr r URLIDKEY")
  from Incr_counter [OF cnt incr] show ?thesis
  proof (elim disjE exE conjE)
    fix msg assume "res1 = Inl (redis_Error msg)" "store r1 = store r"
    with run incr show ?thesis by (auto simp: Shorten_alloc_def)
  next
    fix e
    assume lt: "n < 2 ^ 63 - 1" and res1: "res1 = Inr (n + 1)"
      and st1: "store r1 = (store r)(URLIDKEY \<mapsto> e)" and e: "val e = FormatInt (n + 1)"
    obtain reply r2 where get: "Get r1 URLIDKEY = (reply, r2)" by (cases "Get r1 URLIDKEY")
    have st2: "store r2 = store r1" using Get_store [OF get] by simp
    have parse: "ParseInt (FormatInt (n + 1)) = Some (n + 1)"
      using n lt by (intro ParseInt_FormatInt) auto
    have reply: "(\<exists>msg. reply = Inl (redis_Error msg)) \<or> Int64 reply = Inr (n + 1)"
      using Get_result [OF get] st1 e parse
      by (auto simp: Int64_def split: option.splits)
    obtain eid where eid: "Encode (n + 1) = Some eid"
      using n by (auto simp: Encode_def)
    have cnt2: "counter r2 = Some (n + 1)"
      using st1 st2 e n lt by (intro counter_upd [of _ e]) auto
    have neq: "store r2 URLIDKEY \<noteq> store r URLIDKEY"
    proof
      assume "store r2 URLIDKEY = store r URLIDKEY"
      then have "counter r2 = counter r" by (simp add: counter_def)
      with cnt cnt2 show False by simp
    qed
    have nokey: "\<not> key_of eid URLIDKEY"
      by (simp add: key_of_def keys_distinct)
    from reply show ?thesis
    proof
      assume "\<exists>msg. reply = Inl (redis_Error msg)"
      then have "isl res" and "r' = r2"
        using run incr res1 get by (auto simp: Shorten_alloc_def Int64_def)
      with lt cnt2 neq eid st1 st2 show ?thesis by auto
    next
      assume "Int64 reply = Inr (n + 1)"
      then have w: "Shorten_write m now r2 eid u t = (res, r')"
        using run incr res1 get eid by (simp add: Shorten_alloc_def)
      have frame: "store r' k = store r2 k" if "\<not> key_of eid k" for k
        using Shorten_write_frame [OF w that] .
      have "counter r' = Some (n + 1)"
        using frame [OF nokey] cnt2 by (simp add: counter_def)
      moreover have "store r' URLIDKEY \<noteq> store r URLIDKEY"
        using frame [OF nokey] neq by simp
      moreover have "store r' k = store r k" if "k \<noteq> URLIDKEY" "\<not> key_of eid k" for k
        using frame [OF that(2)] st1 st2 that(1) by simp
      moreover have "c = eid \<and>
          store r' (Sprintf ShortlinkKey c) = Some \<lparr>val = u, ttl = Some (Minute * t)\<rparr>"
        if "res = Inr c" for c
        using Shorten_write_code [of m now r2 eid u t c r'] w that by simp
      ultimately show ?thesis using lt eid by blast
    qed
  qed
qed

lemma Shorten_miss:
  assumes "well_formed r"
  shows "Shorten m now r u t =
           (case next_fault r of
              Some msg \<Rightarrow> (Inl (redis_Error msg), r\<lparr>faults := tl (faults r)\<rparr>)
            | None \<Rightarrow> Shorten_alloc m now (r\<lparr>faults := tl (faults r)\<rparr>) u t)"
  using fingerprint_key_fresh [OF assms, of u]
  by (simp add: Shorten_def Get_def roundtrip_def split: option.splits)

lemma Shorten_step:
  assumes wf: "well_formed r" and cnt: "counter r = Some n"
    and run: "Shorten m now r u t = (res, r')"
  shows "(isl res \<and> store r' = store r) \<or>
         (n < 2 ^ 63 - 1 \<and> counter r' = Some (n + 1) \<and>
          store r' URLIDKEY \<noteq> store r URLIDKEY \<and>
          (\<exists>eid. Encode (n + 1) = Some eid \<and>
             (\<forall>k. k \<noteq> URLIDKEY \<longrightarrow> \<not> key_of eid k \<longrightarrow> store r' k = store r k) \<and>
             (\<forall>c. res = Inr c \<longrightarrow> c = eid \<and>
                store r' (Sprintf ShortlinkKey c) = Some \<lparr>val = u, ttl = Some (Minute * t)\<rparr>)))"
proof (cases "next_fault r")
  case (Some msg)
  with run show ?thesis by (auto simp: Shorten_miss [OF wf])
next
  case None
  let ?r0 = "r\<lparr>faults := tl (faults r)\<rparr>"
  have "counter ?r0 = Some n" using cnt by (simp add: counter_def)
  moreover have "0 \<le> n" using wf cnt by (auto simp: well_formed_def)
  moreover have "Shorten_alloc m now ?r0 u t = (res, r')"
    using run None by (simp add: Shorten_miss [OF wf])
  ultimately show ?thesis
    using Shorten_alloc_step [of ?r0 n m now u t res r'] by simp
qed

lemma well_formed_Shorten:
  assumes wf: "well_formed r" and run: "Shorten m now r u t = (res, r')"
  shows "well_formed r'"
proof -
  from wf obtain n where cnt: "counter r = Some n" and n: "0 \<le> n"
    by (auto simp: well_formed_def)
  from Shorten_step [OF wf cnt run] show ?thesis
  proof (elim disjE conjE exE)
    assume "store r' = store r"
    with wf show ?thesis by (simp add: well_formed_def counter_def)
  next
    fix eid
    assume cnt': "counter r' = Some (n + 1)" and eid: "Encode (n + 1) = Some eid"
      and frame: "\<forall>k. k \<noteq> URLIDKEY \<longrightarrow> \<not> key_of eid k \<longrightarrow> store r' k = store r k"
    have "set eid \<subseteq> set alphabet" using Encode_shape(2) [OF eid] .
    moreover have "\<forall>k. store r k \<noteq> None \<longrightarrow>
        k = URLIDKEY \<or> (\<exists>c. set c \<subseteq> set alphabet \<and> key_of c k)"
      using wf by (simp add: well_formed_def)
    ultimately have "\<forall>k. store r' k \<noteq> None \<longrightarrow>
        k = URLIDKEY \<or> (\<exists>c. set c \<subseteq> set alphabet \<and> key_of c k)"
      using frame by metis
    with cnt' n show ?thesis by (auto simp: well_formed_def)
  qed
qed

lemma well_formed_fresh: "well_formed (fresh fs)"
  by (simp add: well_formed_def fresh_def counter_def)

lemma Unshorten_state: "Unshorten r eid = (res, r') \<Longrightarrow> r' = r\<lparr>faults := tl (faults r)\<rparr>"
  by (auto simp: Unshorten_def dest: Get_store split: prod.splits sum.splits if_splits)

lemma ShortlinkInfo_state: "ShortlinkInfo r eid = (res, r') \<Longrightarrow> r' = r\<lparr>faults := tl (faults r)\<rparr>"
  by (auto simp: ShortlinkInfo_def dest: Get_store split: prod.splits sum.splits if_splits)

lemma reachable_well_formed: "reachable r \<Longrightarrow> well_formed r"
proof (induction rule: reachable.induct)
  case (start fs)
  show ?case by (rule well_formed_fresh)
next
  case (shorten r marshal now url exp res r')
  then show ?case using well_formed_Shorten by blast
next
  case (unshorten r eid res r')
  then show ?case
    using Unshorten_state [OF unshorten.hyps(2)] by (simp add: well_formed_def counter_def)
next
  case (info r eid res r')
  then show ?case
    using ShortlinkInfo_state [OF info.hyps(2)] by (simp add: well_formed_def counter_def)
qed

section \<open>Round trips that go through\<close>

lemma passes_Suc:
  "passes (Suc k) fs \<longleftrightarrow> (case fs of [] \<Rightarrow> None | f # _ \<Rightarrow> f) = None \<and> passes k (tl fs)"
  by (cases fs) (auto simp: passes_def)

lemma Incr_pass:
  assumes "next_fault r = None" and "counter r = Some n" and "n < 2 ^ 63 - 1"
  shows "Incr r URLIDKEY =
           (Inr (n + 1), r\<lparr>store := bump (store r) (n + 1), faults := tl (faults r)\<rparr>)"
  using assms counter_cases [OF assms(2)]
  by (auto simp: Incr_def roundtrip_def bump_def)

lemma counter_bump:
  assumes "counter r = Some n" and "0 \<le> n" and "n < 2 ^ 63 - 1"
  shows "bump (store r) (n + 1) URLIDKEY \<noteq> None"
    and "\<And>r'. store r' URLIDKEY = bump (store r) (n + 1) URLIDKEY \<Longrightarrow> counter r' = Some (n + 1)"
  using assms
  by (auto simp: bump_def counter_def string2ll_FormatInt split: option.splits)

lemma Shorten_alloc_run:
  assumes nf: "next_fault r = None" and cnt: "counter r = Some n" and n: "0 \<le> n" "n < 2 ^ 63 - 1"
  shows "Shorten_alloc m now r u t =
           (case next_fault (r\<lparr>faults := tl (faults r)\<rparr>) of
              Some msg \<Rightarrow>
                (Inl (redis_Error msg),
                 r\<lparr>store := bump (store r) (n + 1), faults := tl (tl (faults r))\<rparr>)
            | None \<Rightarrow>
                Shorten_write m now
                  (r\<lparr>store := bump (store r) (n + 1), faults := tl (tl (faults r))\<rparr>)
                  (to_symbols alphabet (nat (n + 1))) u t)"
proof -
  have parse: "ParseInt (FormatInt (n + 1)) = Some (n + 1)"
    using n by (intro ParseInt_FormatInt) auto
  have "\<exists>e. bump (store r) (n + 1) URLIDKEY = Some e \<and> val e = FormatInt (n + 1)"
    by (auto simp: bump_def split: option.splits)
  then show ?thesis
    using n parse
    by (auto simp: Shorten_alloc_def Incr_pass [OF nf cnt n(2)] Get_def roundtrip_def
        next_fault_def Int64_def Encode_def split: option.splits)
qed

section \<open>Complete runs\<close>

lemma drop_tl: "drop (Suc k) fs = drop k (tl fs)"
  by (cases fs) simp_all

lemma Shorten_write_run:
  assumes "passes 3 (faults r)"
    and "m \<lparr>URL = u, CreatedAt = now, ExpirationInMinutes = t\<rparr> = Inr detail"
  shows "Shorten_write m now r eid u t =
           (Inr eid,
            r\<lparr>store := (store r)
                  (Sprintf ShortlinkKey eid \<mapsto> \<lparr>val = u, ttl = Some (Minute * t)\<rparr>,
                   Sprintf URLHashKey eid \<mapsto> \<lparr>val = u, ttl = Some (Minute * t)\<rparr>,
                   Sprintf ShortlinkDetailKey eid \<mapsto> \<lparr>val = detail, ttl = Some (Minute * t)\<rparr>),
              faults := drop 3 (faults r)\<rparr>)"
  using assms
  by (simp add: Shorten_write_def Set_def roundtrip_def next_fault_def passes_Suc
      eval_nat_numeral drop_tl)

lemma Shorten_run:
  assumes wf: "well_formed r" and cnt: "counter r = Some n" and lt: "n < 2 ^ 63 - 1"
    and ok: "passes 6 (faults r)"
    and m: "m \<lparr>URL = u, CreatedAt = now, ExpirationInMinutes = t\<rparr> = Inr detail"
  shows "Shorten m now r u t =
           (Inr (to_symbols alphabet (nat (n + 1))),
            r\<lparr>store := (bump (store r) (n + 1))
                  (Sprintf ShortlinkKey (to_symbols alphabet (nat (n + 1)))
                     \<mapsto> \<lparr>val = u, ttl = Some (Minute * t)\<rparr>,
                   Sprintf URLHashKey (to_symbols alphabet (nat (n + 1)))
                     \<mapsto> \<lparr>val = u, ttl = Some (Minute * t)\<rparr>,
                   Sprintf ShortlinkDetailKey (to_symbols alphabet (nat (n + 1)))
                     \<mapsto> \<lparr>val = detail, ttl = Some (Minute * t)\<rparr>),
              faults := drop 6 (faults r)\<rparr>)"
proof -
  let ?r0 = "r\<lparr>faults := tl (faults r)\<rparr>"
  let ?r2 = "r\<lparr>store := bump (store r) (n + 1), faults := tl (tl (tl (faults r)))\<rparr>"
  have n: "0 \<le> n" using wf cnt by (auto simp: well_formed_def)
  from ok have f: "next_fault r = None" "next_fault ?r0 = None"
    "next_fault (?r0\<lparr>faults := tl (faults ?r0)\<rparr>) = None"
    "passes 3 (tl (tl (tl (faults r))))"
    by (simp_all add: passes_Suc eval_nat_numeral next_fault_def)
  have "Shorten m now r u t = Shorten_alloc m now ?r0 u t"
    using f(1) by (simp add: Shorten_miss [OF wf])
  also have "\<dots> = Shorten_write m now ?r2 (to_symbols alphabet (nat (n + 1))) u t"
    using Shorten_alloc_run [of ?r0 n m now u t] f(2,3) cnt n lt
    by (simp add: counter_def)
  also have "\<dots> = (Inr (to_symbols alphabet (nat (n + 1))),
            ?r2\<lparr>store := (store ?r2)
                  (Sprintf ShortlinkKey (to_symbols alphabet (nat (n + 1)))
                     \<mapsto> \<lparr>val = u, ttl = Some (Minute * t)\<rparr>,
                   Sprintf URLHashKey (to_symbols alphabet (nat (n + 1)))
                     \<mapsto> \<lparr>val = u, ttl = Some (Minute * t)\<rparr>,
                   Sprintf ShortlinkDetailKey (to_symbols alphabet (nat (n + 1)))
                     \<mapsto> \<lparr>val = detail, ttl = Some (Minute * t)\<rparr>),
              faults := drop 3 (faults ?r2)\<rparr>)"
    using f(4) m by (intro Shorten_write_run) simp_all
  finally show ?thesis
    by (simp add: eval_nat_numeral drop_tl)
qed

lemma to_symbols_small:
  "to_symbols alphabet (nat (0 + 1)) = ''1''" "to_symbols alphabet (nat (1 + 1)) = ''2''"
  "to_symbols alphabet 2 = ''2''"
  by (simp_all add: to_symbols.simps alphabet_def)

lemma counter_fresh: "counter (fresh fs) = Some 0"
  by (simp add: counter_def fresh_def)

lemma marshal_plain_Inr: "\<exists>detail. marshal_plain d = Inr detail"
  by (simp add: marshal_plain_def)

lemma first_call:
  assumes "m \<lparr>URL = u, CreatedAt = now, ExpirationInMinutes = t\<rparr> = Inr detail"
  shows "fst (Shorten m now (fresh []) u t) = Inr ''1''"
    and "counter (snd (Shorten m now (fresh []) u t)) = Some 1"
    and "faults (snd (Shorten m now (fresh []) u t)) = []"
    and "store (snd (Shorten m now (fresh []) u t)) (Sprintf ShortlinkKey ''1'')
           = Some \<lparr>val = u, ttl = Some (Minute * t)\<rparr>"
proof -
  have p: "passes 6 (faults (fresh []))" by (simp add: fresh_def passes_def)
  have lt: "(0::int) < 2 ^ 63 - 1" by simp
  note run = Shorten_run [where m = m and r = "fresh []" and n = 0, OF well_formed_fresh
      counter_fresh lt p assms, unfolded to_symbols_small]
  show "fst (Shorten m now (fresh []) u t) = Inr ''1''"
    by (simp add: run)
  show "faults (snd (Shorten m now (fresh []) u t)) = []"
    by (simp add: run) (simp add: fresh_def)
  show "store (snd (Shorten m now (fresh []) u t)) (Sprintf ShortlinkKey ''1'')
           = Some \<lparr>val = u, ttl = Some (Minute * t)\<rparr>"
    by (simp add: run keys_distinct)
  have "Shorten m now (fresh []) u t
          = (fst (Shorten m now (fresh []) u t), snd (Shorten m now (fresh []) u t))"
    by simp
  from Shorten_step [OF well_formed_fresh counter_fresh this]
  show "counter (snd (Shorten m now (fresh []) u t)) = Some 1"
    by (auto simp: run)
qed

lemma two_calls:
  assumes "m \<lparr>URL = u, CreatedAt = now, ExpirationInMinutes = t\<rparr> = Inr detail"
    and "m \<lparr>URL = u', CreatedAt = now', ExpirationInMinutes = t'\<rparr> = Inr detail'"
  shows "fst (Shorten_seq m (fresh []) [(now, u, t), (now', u', t')]) = [Inr ''1'', Inr ''2'']"
proof -
  let ?r1 = "snd (Shorten m now (fresh []) u t)"
  have s1: "Shorten m now (fresh []) u t = (Inr ''1'', ?r1)"
    using first_call(1) [where m = m, OF assms(1)] by (metis prod.collapse)
  have wf: "well_formed ?r1"
    using well_formed_Shorten [OF well_formed_fresh s1] .
  have p: "passes 6 (faults ?r1)"
    by (simp add: first_call(3) [where m = m, OF assms(1)] passes_def)
  have "fst (Shorten m now' ?r1 u' t') = Inr ''2''"
    using Shorten_run [where m = m and n = 1, OF wf first_call(2) [where m = m, OF assms(1)] _ p assms(2)]
    by (simp add: to_symbols_small)
  then show ?thesis
    using s1 by (auto split: prod.splits)
qed

lemma passes_0: "passes 0 fs"
  by (simp add: passes_def)

lemma Shorten_reaches_write:
  assumes "well_formed r" and "counter r = Some n" and "n < 2 ^ 63 - 1"
    and "passes 3 (faults r)"
  shows "Shorten m now r u t =
           Shorten_write m now (r\<lparr>store := bump (store r) (n + 1), faults := drop 3 (faults r)\<rparr>)
             (to_symbols alphabet (nat (n + 1))) u t"
proof -
  let ?r0 = "r\<lparr>faults := tl (faults r)\<rparr>"
  have n: "0 \<le> n" using assms(1,2) by (auto simp: well_formed_def)
  have f: "next_fault r = None" "next_fault ?r0 = None"
    "next_fault (?r0\<lparr>faults := tl (faults ?r0)\<rparr>) = None"
    using assms(4) by (simp_all add: next_fault_def passes_Suc eval_nat_numeral)
  have cnt0: "counter ?r0 = Some n" using assms(2) by (simp add: counter_def)
  show ?thesis
    using Shorten_alloc_run [OF f(2) cnt0 n assms(3), of m now u t] f(1,3)
    by (simp add: Shorten_miss [OF assms(1)] eval_nat_numeral drop_tl)
qed

section \<open>The fingerprint\<close>

text \<open>
  Claim C9. For every string \<open>s\<close>, \<open>toSha1 s\<close> is \<open>s\<close> itself followed by one fixed
  constant of 20 bytes, the SHA-1 digest of the empty byte string
  (\<open>da39a3ee 5e6b4b0d 3255bfef 95601890 afd80709\<close>). So the result is 20 bytes longer than
  \<open>s\<close>, starts with the whole of \<open>s\<close>, is the same for the same input, differs for
  different inputs, and is the SHA-1 digest of \<open>s\<close> only when \<open>s\<close> is empty.
\<close>

theorem toSha1_appends_digest_of_empty:
  "toSha1 s = s @ sha1_empty_digest
   \<and> sha1_empty_digest = sha1_of_string []
   \<and> length sha1_empty_digest = 20
   \<and> length (toSha1 s) = length s + 20
   \<and> take (length s) (toSha1 s) = s
   \<and> (toSha1 s = toSha1 s') = (s = s')
   \<and> (toSha1 s = sha1_of_string s) = (s = [])"
proof -
  have d: "sha1_empty_digest = sha1_of_string []"
    by (simp add: sha1_of_string_def Sum_def Write_def sha1_New_def bytes_of_string_def
        string_of_sha1_empty)
  have l: "length sha1_empty_digest = 20"
    by (simp add: sha1_empty_digest_def)
  have "length (sha1_of_string s) = 20"
    by (simp add: sha1_of_string_def Sum_def string_of_bytes_def length_sha1)
  then have "(toSha1 s = sha1_of_string s) = (s = [])"
    using d l by (auto simp: toSha1_eq dest: arg_cong [where f = length])
  with d l show ?thesis
    by (simp add: toSha1_eq)
qed

theorem toSha1_appends_digest_of_empty_witness:
  "toSha1 ''https://www.baidu.com'' = ''https://www.baidu.com'' @ sha1_empty_digest
   \<and> length (toSha1 ''https://www.baidu.com'') = 41
   \<and> toSha1 ''https://www.baidu.com'' \<noteq> toSha1 ''https://www.baidu.com/''
   \<and> toSha1 ''https://www.baidu.com'' \<noteq> sha1_of_string ''https://www.baidu.com''"
proof -
  let ?u = "''https://www.baidu.com''" and ?v = "''https://www.baidu.com/''"
  note t = toSha1_appends_digest_of_empty [of ?u ?v]
  from t have a: "toSha1 ?u = ?u @ sha1_empty_digest" by blast
  from t have "length (toSha1 ?u) = length ?u + 20" by blast
  then have b: "length (toSha1 ?u) = 41" by simp
  from t have "(toSha1 ?u = toSha1 ?v) = (?u = ?v)" by blast
  then have c: "toSha1 ?u \<noteq> toSha1 ?v" by simp
  from t have "(toSha1 ?u = sha1_of_string ?u) = (?u = [])" by blast
  then have d: "toSha1 ?u \<noteq> sha1_of_string ?u" by simp
  from a b c d show ?thesis by blast
qed

section \<open>The code encoder\<close>

text \<open>
  Claim C4. For every integer \<open>n \<ge> 0\<close> (so also for every one up to the largest 64-bit
  value) the encoder gives a code and decoding that code gives \<open>n\<close> back; for a negative
  \<open>n\<close> the encoder gives nothing.
\<close>

theorem Decode_Encode_roundtrip:
  "(0 \<le> n \<longrightarrow> (\<exists>c. Encode n = Some c \<and> Decode c = Some n)) \<and> (n < 0 \<longrightarrow> Encode n = None)"
  using Decode_Encode [of n] by (auto simp: Encode_def)

theorem Decode_Encode_roundtrip_witness:
  "(0::int) \<le> 9223372036854775807
   \<and> (\<exists>c. Encode 9223372036854775807 = Some c \<and> Decode c = Some 9223372036854775807)
   \<and> (- 1 :: int) < 0 \<and> Encode (- 1) = None"
  using Decode_Encode_roundtrip [of 9223372036854775807] Decode_Encode_roundtrip [of "- 1"]
  by simp

section \<open>Reading a code\<close>

text \<open>
  Claim C5. When the read goes through and the URL record of the code is absent,
  \<open>Unshorten\<close> fails with a \<open>StatusError\<close> whose status is 404; when the read fails
  with any other error of the backend, \<open>Unshorten\<close> fails with that error, which has no
  status. \<open>ShortlinkInfo\<close> does the same on the detail record.
\<close>

theorem not_found_classification:
  "(next_fault r = None \<longrightarrow> store r (Sprintf ShortlinkKey c) = None \<longrightarrow>
      fst (Unshorten r c) = Inl (StatusError 404 redis_Nil) \<and>
      Status (StatusError 404 redis_Nil) = Some 404)
   \<and> (next_fault r = Some msg \<longrightarrow>
      fst (Unshorten r c) = Inl (redis_Error msg) \<and> Status (redis_Error msg) = None)
   \<and> (next_fault r = None \<longrightarrow> store r (Sprintf ShortlinkDetailKey c) = None \<longrightarrow>
      fst (ShortlinkInfo r c) = Inl (StatusError 404 (errors_New ''Unknown short URL'')) \<and>
      Status (StatusError 404 (errors_New ''Unknown short URL'')) = Some 404)
   \<and> (next_fault r = Some msg \<longrightarrow>
      fst (ShortlinkInfo r c) = Inl (redis_Error msg) \<and> Status (redis_Error msg) = None)"
  by (simp add: Unshorten_def ShortlinkInfo_def Get_def roundtrip_def)

theorem not_found_classification_witness:
  "next_fault (fresh []) = None
   \<and> store (fresh []) (Sprintf ShortlinkKey ''doesNotExist'') = None
   \<and> store (fresh []) (Sprintf ShortlinkDetailKey ''doesNotExist'') = None
   \<and> fst (Unshorten (fresh []) ''doesNotExist'') = Inl (StatusError 404 redis_Nil)
   \<and> fst (ShortlinkInfo (fresh []) ''doesNotExist'')
       = Inl (StatusError 404 (errors_New ''Unknown short URL''))
   \<and> next_fault (fresh [Some ''i/o timeout'']) = Some ''i/o timeout''
   \<and> fst (Unshorten (fresh [Some ''i/o timeout'']) ''doesNotExist'') = Inl (redis_Error ''i/o timeout'')
   \<and> fst (ShortlinkInfo (fresh [Some ''i/o timeout'']) ''doesNotExist'')
       = Inl (redis_Error ''i/o timeout'')"
proof -
  have a: "next_fault (fresh []) = None" "store (fresh []) k = None" for k
    by (simp_all add: fresh_def next_fault_def)
  have b: "next_fault (fresh [Some ''i/o timeout'']) = Some ''i/o timeout''"
    by (simp add: fresh_def next_fault_def)
  show ?thesis
    using not_found_classification [where r = "fresh []" and c = "''doesNotExist''"]
      not_found_classification [where r = "fresh [Some ''i/o timeout'']"
        and msg = "''i/o timeout''" and c = "''doesNotExist''"]
      a b
    by simp
qed

section \<open>A failing lookup under the fingerprint\<close>

text \<open>
  Claim C2, as the code has it. When the lookup under the fingerprint fails with an error
  of the backend other than the absence of the key, \<open>Shorten\<close> returns that error at
  once: nothing is allocated, the counter and every record stay as they were.
\<close>

theorem lookup_error_is_returned:
  assumes "next_fault r = Some msg"
  shows "Shorten marshal now r url exp = (Inl (redis_Error msg), r\<lparr>faults := tl (faults r)\<rparr>)"
  using assms by (simp add: Shorten_def Get_def roundtrip_def)

theorem lookup_error_is_returned_witness:
  "next_fault (fresh [Some ''EOF'', None]) = Some ''EOF''
   \<and> Shorten marshal_plain ''2019-12-12 12:12:12'' (fresh [Some ''EOF'', None])
        ''https://www.baidu.com'' 60
      = (Inl (redis_Error ''EOF''), fresh [None])"
proof -
  have "next_fault (fresh [Some ''EOF'', None]) = Some ''EOF''"
    by (simp add: fresh_def next_fault_def)
  from this lookup_error_is_returned [OF this] show ?thesis
    by (simp add: fresh_def)
qed

text \<open>
  The claim as the specification words it (the error is not returned, an identifier is
  allocated) fails on a backend whose first round trip times out.
\<close>

theorem lookup_error_counterexample:
  "fst (Shorten marshal_plain ''2019-12-12 12:12:12'' (fresh [Some ''i/o timeout''])
          ''https://www.baidu.com'' 60) = Inl (redis_Error ''i/o timeout'')
   \<and> store (snd (Shorten marshal_plain ''2019-12-12 12:12:12'' (fresh [Some ''i/o timeout''])
          ''https://www.baidu.com'' 60)) URLIDKEY = None"
  by (simp add: Shorten_def Get_def roundtrip_def next_fault_def fresh_def)

section \<open>Resolution after shortening\<close>

text \<open>
  Claim C3. In every state the service can reach: when \<open>Shorten\<close> of a URL \<open>u\<close> returns
  a code \<open>c\<close> without error, an \<open>Unshorten\<close> of \<open>c\<close> on the backend as that call left
  it, whose read goes through, returns \<open>u\<close> without error. This holds for every
  expiration \<open>t\<close>, positive ones included.
\<close>

theorem unshorten_after_shorten:
  assumes "reachable r" and "Shorten marshal now r u t = (Inr c, r')"
    and "next_fault r' = None"
  shows "fst (Unshorten r' c) = Inr u"
proof -
  have wf: "well_formed r" using assms(1) by (rule reachable_well_formed)
  then obtain n where cnt: "counter r = Some n" by (auto simp: well_formed_def)
  from Shorten_step [OF wf cnt assms(2)]
  have "store r' (Sprintf ShortlinkKey c) = Some \<lparr>val = u, ttl = Some (Minute * t)\<rparr>"
    by auto
  with assms(3) show ?thesis
    by (simp add: Unshorten_def Get_def roundtrip_def)
qed

theorem unshorten_after_shorten_witness:
  "reachable (fresh [])
   \<and> fst (Shorten marshal_plain ''2019-12-12 12:12:12'' (fresh []) ''https://www.baidu.com'' 60)
       = Inr ''1''
   \<and> next_fault (snd (Shorten marshal_plain ''2019-12-12 12:12:12'' (fresh [])
         ''https://www.baidu.com'' 60)) = None
   \<and> fst (Unshorten (snd (Shorten marshal_plain ''2019-12-12 12:12:12'' (fresh [])
         ''https://www.baidu.com'' 60)) ''1'') = Inr ''https://www.baidu.com''"
proof -
  let ?run = "Shorten marshal_plain ''2019-12-12 12:12:12'' (fresh []) ''https://www.baidu.com'' 60"
  obtain detail where m: "marshal_plain \<lparr>URL = ''https://www.baidu.com'',
      CreatedAt = ''2019-12-12 12:12:12'', ExpirationInMinutes = 60\<rparr> = Inr detail"
    using marshal_plain_Inr by blast
  have a: "reachable (fresh [])" by (rule reachable.start)
  have b: "fst ?run = Inr ''1''"
    using first_call(1) [where m = marshal_plain, OF m] .
  then have b': "?run = (Inr ''1'', snd ?run)" by (metis prod.collapse)
  have c: "next_fault (snd ?run) = None"
    using first_call(3) [where m = marshal_plain, OF m] by (simp add: next_fault_def)
  from a b c unshorten_after_shorten [OF a b' c] show ?thesis by blast
qed

section \<open>The shape of a code\<close>

text \<open>
  Claim C8. In every state the service can reach, a code returned by \<open>Shorten\<close> has
  between 1 and 11 characters, all of them from the alphabet of digits and letters; and
  so has the code of every counter value from 0 up to the largest signed 64-bit integer.
\<close>

theorem short_code_shape:
  "(reachable r \<longrightarrow> Shorten marshal now r u t = (Inr c, r') \<longrightarrow>
      1 \<le> length c \<and> length c \<le> 11 \<and> set c \<subseteq> set alphabet)
   \<and> (0 \<le> n \<longrightarrow> n < 2 ^ 63 \<longrightarrow>
      (\<exists>c. Encode n = Some c \<and> 1 \<le> length c \<and> length c \<le> 11 \<and> set c \<subseteq> set alphabet))"
proof -
  have A: "1 \<le> length c \<and> length c \<le> 11 \<and> set c \<subseteq> set alphabet"
    if re: "reachable r" and run: "Shorten marshal now r u t = (Inr c, r')"
  proof -
    have wf: "well_formed r" using re by (rule reachable_well_formed)
    then obtain k where cnt: "counter r = Some k" by (auto simp: well_formed_def)
    from Shorten_step [OF wf cnt run]
    have k: "k < 2 ^ 63 - 1" and c: "Encode (k + 1) = Some c" by auto
    from k have "k + 1 < 2 ^ 63" by simp
    then show ?thesis
      using Encode_shape [OF c] Encode_length [OF c] by (cases c) auto
  qed
  have B: "\<exists>c. Encode n = Some c \<and> 1 \<le> length c \<and> length c \<le> 11 \<and> set c \<subseteq> set alphabet"
    if n: "0 \<le> n" "n < 2 ^ 63"
  proof -
    from n obtain c where c: "Encode n = Some c" by (auto simp: Encode_def)
    have "1 \<le> length c \<and> length c \<le> 11 \<and> set c \<subseteq> set alphabet"
      using Encode_shape [OF c] Encode_length [OF c n(2)] by (cases c) auto
    with c show ?thesis by blast
  qed
  from A B show ?thesis by blast
qed

theorem short_code_shape_witness:
  "reachable (fresh [])
   \<and> fst (Shorten marshal_plain ''2019-12-12 12:12:12'' (fresh []) ''https://www.baidu.com'' 60)
       = Inr ''1''
   \<and> 1 \<le> length ''1'' \<and> length ''1'' \<le> 11 \<and> set ''1'' \<subseteq> set alphabet
   \<and> (0::int) \<le> 9223372036854775807 \<and> (9223372036854775807::int) < 2 ^ 63
   \<and> (\<exists>c. Encode 9223372036854775807 = Some c \<and> 1 \<le> length c \<and> length c \<le> 11
          \<and> set c \<subseteq> set alphabet)"
proof -
  let ?run = "Shorten marshal_plain ''2019-12-12 12:12:12'' (fresh []) ''https://www.baidu.com'' 60"
  obtain detail where m: "marshal_plain \<lparr>URL = ''https://www.baidu.com'',
      CreatedAt = ''2019-12-12 12:12:12'', ExpirationInMinutes = 60\<rparr> = Inr detail"
    using marshal_plain_Inr by blast
  have a: "reachable (fresh [])" by (rule reachable.start)
  have b: "fst ?run = Inr ''1''"
    using first_call(1) [where m = marshal_plain, OF m] .
  then have b': "?run = (Inr ''1'', snd ?run)" by (metis prod.collapse)
  have n: "(0::int) \<le> 9223372036854775807" "(9223372036854775807::int) < 2 ^ 63" by simp_all
  note t = short_code_shape [where r = "fresh []" and marshal = marshal_plain
      and now = "''2019-12-12 12:12:12''" and u = "''https://www.baidu.com''" and t = 60
      and c = "''1''" and r' = "snd ?run" and n = 9223372036854775807]
  from t a b' have "1 \<le> length ''1'' \<and> length ''1'' \<le> 11 \<and> set ''1'' \<subseteq> set alphabet"
    by blast
  moreover from t n have "\<exists>c. Encode 9223372036854775807 = Some c \<and> 1 \<le> length c
      \<and> length c \<le> 11 \<and> set c \<subseteq> set alphabet"
    by blast
  ultimately show ?thesis using a b n by blast
qed

section \<open>The counter after a failed call\<close>

text \<open>
  Claim C10. In every state the service can reach, with the counter at \<open>n\<close> below the
  largest 64-bit integer: when the lookup and the increment go through (the first two
  round trips) and \<open>Shorten\<close> still returns an error, the counter is \<open>n + 1\<close>
  afterwards and the backend is not what it was before the call. And \<open>Shorten\<close> does
  return an error when a later step fails: the read of the counter, the first, second or
  third write, or the serialization of the detail.
\<close>

theorem counter_stays_incremented:
  assumes "reachable r" and "counter r = Some n" and "n < 2 ^ 63 - 1"
  shows "(passes 2 (faults r) \<longrightarrow> Shorten marshal now r u t = (Inl err, r') \<longrightarrow>
            counter r' = Some (n + 1) \<and> store r' URLIDKEY \<noteq> store r URLIDKEY \<and>
            store r' \<noteq> store r)
    \<and> (faults r = None # None # Some msg # fs \<longrightarrow>
          fst (Shorten marshal now r u t) = Inl (redis_Error msg))
    \<and> (faults r = None # None # None # Some msg # fs \<longrightarrow>
          fst (Shorten marshal now r u t) = Inl (redis_Error msg))
    \<and> (faults r = None # None # None # None # Some msg # fs \<longrightarrow>
          fst (Shorten marshal now r u t) = Inl (redis_Error msg))
    \<and> (passes 5 (faults r) \<longrightarrow>
          marshal \<lparr>URL = u, CreatedAt = now, ExpirationInMinutes = t\<rparr> = Inl err \<longrightarrow>
          fst (Shorten marshal now r u t) = Inl err)
    \<and> (faults r = None # None # None # None # None # Some msg # fs \<longrightarrow>
          marshal \<lparr>URL = u, CreatedAt = now, ExpirationInMinutes = t\<rparr> = Inr detail \<longrightarrow>
          fst (Shorten marshal now r u t) = Inl (redis_Error msg))"
proof -
  have wf: "well_formed r" using assms(1) by (rule reachable_well_formed)
  have n: "0 \<le> n" using wf assms(2) by (auto simp: well_formed_def)
  let ?r0 = "r\<lparr>faults := tl (faults r)\<rparr>"
  let ?r2 = "r\<lparr>store := bump (store r) (n + 1), faults := tl (tl (tl (faults r)))\<rparr>"
  have cnt0: "counter ?r0 = Some n" using assms(2) by (simp add: counter_def)
  have alloc_run: "Shorten marshal now r u t =
           (case next_fault (?r0\<lparr>faults := tl (faults ?r0)\<rparr>) of
              Some msg \<Rightarrow>
                (Inl (redis_Error msg),
                 ?r0\<lparr>store := bump (store ?r0) (n + 1), faults := tl (tl (faults ?r0))\<rparr>)
            | None \<Rightarrow>
                Shorten_write marshal now
                  (?r0\<lparr>store := bump (store ?r0) (n + 1), faults := tl (tl (faults ?r0))\<rparr>)
                  (to_symbols alphabet (nat (n + 1))) u t)"
    if "passes 2 (faults r)"
  proof -
    from that have f: "next_fault r = None" "next_fault ?r0 = None"
      by (simp_all add: passes_Suc eval_nat_numeral next_fault_def)
    show ?thesis
      using Shorten_alloc_run [OF f(2) cnt0 n assms(3), of marshal now u t] f(1)
      by (simp add: Shorten_miss [OF wf])
  qed
  have A: "counter r' = Some (n + 1) \<and> store r' URLIDKEY \<noteq> store r URLIDKEY \<and> store r' \<noteq> store r"
    if p: "passes 2 (faults r)" and run: "Shorten marshal now r u t = (Inl err, r')"
  proof -
    have key: "store r' URLIDKEY = bump (store r) (n + 1) URLIDKEY"
    proof (cases "next_fault (?r0\<lparr>faults := tl (faults ?r0)\<rparr>)")
      case (Some msg)
      with alloc_run [OF p] run show ?thesis by auto
    next
      case None
      with alloc_run [OF p] run
      have w: "Shorten_write marshal now ?r2 (to_symbols alphabet (nat (n + 1))) u t = (Inl err, r')"
        by simp
      have "\<not> key_of (to_symbols alphabet (nat (n + 1))) URLIDKEY"
        by (simp add: key_of_def keys_distinct)
      from Shorten_write_frame [OF w this] show ?thesis by simp
    qed
    have c': "counter r' = Some (n + 1)"
      using counter_bump(2) [OF assms(2) n assms(3) key] .
    have "store r' URLIDKEY \<noteq> store r URLIDKEY"
    proof
      assume "store r' URLIDKEY = store r URLIDKEY"
      then have "counter r' = counter r" by (simp add: counter_def)
      with c' assms(2) show False by simp
    qed
    with c' show ?thesis by auto
  qed
  have B: "fst (Shorten marshal now r u t) = Inl (redis_Error msg)"
    if "faults r = None # None # Some msg # fs"
    using alloc_run that by (simp add: passes_def next_fault_def)
  have C: "fst (Shorten marshal now r u t) = Inl (redis_Error msg)"
    if "faults r = None # None # None # Some msg # fs"
    using Shorten_reaches_write [OF wf assms(2,3), of marshal now u t] that
    by (simp add: passes_def Shorten_write_def Set_def roundtrip_def next_fault_def)
  have D: "fst (Shorten marshal now r u t) = Inl (redis_Error msg)"
    if "faults r = None # None # None # None # Some msg # fs"
    using Shorten_reaches_write [OF wf assms(2,3), of marshal now u t] that
    by (simp add: passes_def Shorten_write_def Set_def roundtrip_def next_fault_def)
  have E: "fst (Shorten marshal now r u t) = Inl err"
    if "passes 5 (faults r)"
      and "marshal \<lparr>URL = u, CreatedAt = now, ExpirationInMinutes = t\<rparr> = Inl err"
  proof -
    from that(1) have "passes 3 (faults r)"
      and "next_fault (r\<lparr>store := bump (store r) (n + 1), faults := drop 3 (faults r)\<rparr>) = None"
      and "(case tl (drop 3 (faults r)) of [] \<Rightarrow> None | f # x \<Rightarrow> f) = None"
      by (simp_all add: passes_Suc passes_0 eval_nat_numeral next_fault_def drop_tl)
    then show ?thesis
      using Shorten_reaches_write [OF wf assms(2,3), of marshal now u t] that(2)
      by (simp add: Shorten_write_def Set_def roundtrip_def next_fault_def)
  qed
  have F: "fst (Shorten marshal now r u t) = Inl (redis_Error msg)"
    if "faults r = None # None # None # None # None # Some msg # fs"
      and "marshal \<lparr>URL = u, CreatedAt = now, ExpirationInMinutes = t\<rparr> = Inr detail"
    using Shorten_reaches_write [OF wf assms(2,3), of marshal now u t] that
    by (simp add: passes_def Shorten_write_def Set_def roundtrip_def next_fault_def)
  from A B C D E F show ?thesis by blast
qed


theorem counter_stays_incremented_witness:
  "reachable (fresh [None, None, Some ''EOF'']) \<and> counter (fresh [None, None, Some ''EOF'']) = Some 0
   \<and> (0::int) < 2 ^ 63 - 1 \<and> passes 2 (faults (fresh [None, None, Some ''EOF'']))
   \<and> fst (Shorten marshal_plain ''2019-12-12 12:12:12'' (fresh [None, None, Some ''EOF''])
        ''https://www.baidu.com'' 60) = Inl (redis_Error ''EOF'')
   \<and> counter (snd (Shorten marshal_plain ''2019-12-12 12:12:12'' (fresh [None, None, Some ''EOF''])
        ''https://www.baidu.com'' 60)) = Some (0 + 1)
   \<and> fst (Shorten marshal_plain ''2019-12-12 12:12:12'' (fresh [None, None, None, Some ''EOF''])
        ''https://www.baidu.com'' 60) = Inl (redis_Error ''EOF'')
   \<and> fst (Shorten marshal_plain ''2019-12-12 12:12:12''
        (fresh [None, None, None, None, Some ''EOF'']) ''https://www.baidu.com'' 60)
       = Inl (redis_Error ''EOF'')
   \<and> fst (Shorten marshal_plain ''2019-12-12 12:12:12''
        (fresh [None, None, None, None, None, Some ''EOF'']) ''https://www.baidu.com'' 60)
       = Inl (redis_Error ''EOF'')
   \<and> passes 5 (faults (fresh []))
   \<and> fst (Shorten marshal_fails ''2019-12-12 12:12:12'' (fresh []) ''https://www.baidu.com'' 60)
       = Inl (errors_New ''json: unsupported value'')
   \<and> counter (snd (Shorten marshal_fails ''2019-12-12 12:12:12'' (fresh [])
        ''https://www.baidu.com'' 60)) = Some (0 + 1)"
proof -
  let ?T = "''2019-12-12 12:12:12''" and ?U = "''https://www.baidu.com''"
  obtain detail where m: "marshal_plain \<lparr>URL = ?U, CreatedAt = ?T, ExpirationInMinutes = 60\<rparr>
      = Inr detail"
    using marshal_plain_Inr by blast
  have mf: "marshal_fails \<lparr>URL = ?U, CreatedAt = ?T, ExpirationInMinutes = 60\<rparr>
      = Inl (errors_New ''json: unsupported value'')"
    by (simp add: marshal_fails_def)
  have hr: "reachable (fresh fs)" "counter (fresh fs) = Some 0" for fs
    by (simp_all add: reachable.start counter_fresh)
  have hc: "(0::int) < 2 ^ 63 - 1" by simp
  have p: "passes 2 (faults (fresh [None, None, Some ''EOF'']))" "passes 2 (faults (fresh []))"
    "passes 5 (faults (fresh []))"
    by (simp_all add: fresh_def passes_def)
  have f: "faults (fresh fs) = fs" for fs
    by (simp add: fresh_def)
  note t = counter_stays_incremented [where now = ?T and u = ?U and t = 60
      and msg = "''EOF''" and fs = "[]" and detail = detail, OF hr hc]
  let ?run1 = "Shorten marshal_plain ?T (fresh [None, None, Some ''EOF'']) ?U 60"
  let ?run2 = "Shorten marshal_fails ?T (fresh []) ?U 60"
  from t [of "[None, None, Some ''EOF'']" marshal_plain] f
  have a1: "fst ?run1 = Inl (redis_Error ''EOF'')" by blast
  then have "?run1 = (Inl (redis_Error ''EOF''), snd ?run1)" by (metis prod.collapse)
  with t [of "[None, None, Some ''EOF'']" marshal_plain "redis_Error ''EOF''" "snd ?run1"] p(1)
  have a2: "counter (snd ?run1) = Some (0 + 1)" by blast
  from t [of "[None, None, None, Some ''EOF'']" marshal_plain] f
  have a3: "fst (Shorten marshal_plain ?T (fresh [None, None, None, Some ''EOF'']) ?U 60)
      = Inl (redis_Error ''EOF'')" by blast
  from t [of "[None, None, None, None, Some ''EOF'']" marshal_plain] f
  have a4: "fst (Shorten marshal_plain ?T (fresh [None, None, None, None, Some ''EOF'']) ?U 60)
      = Inl (redis_Error ''EOF'')" by blast
  from t [of "[None, None, None, None, None, Some ''EOF'']" marshal_plain] f m
  have a5: "fst (Shorten marshal_plain ?T (fresh [None, None, None, None, None, Some ''EOF''])
      ?U 60) = Inl (redis_Error ''EOF'')" by blast
  from t [of "[]" marshal_fails "errors_New ''json: unsupported value''"] p(3) mf
  have a6: "fst ?run2 = Inl (errors_New ''json: unsupported value'')" by blast
  then have "?run2 = (Inl (errors_New ''json: unsupported value''), snd ?run2)"
    by (metis prod.collapse)
  with t [of "[]" marshal_fails "errors_New ''json: unsupported value''" "snd ?run2"] p(2)
  have a7: "counter (snd ?run2) = Some (0 + 1)" by blast
  from hr [of "[None, None, Some ''EOF'']"] hc p(1,3) a1 a2 a3 a4 a5 a6 a7 show ?thesis
    by blast
qed

section \<open>Codes of successive calls\<close>

lemma Shorten_seq_ids:
  assumes "well_formed r" and "counter r = Some n" and "Shorten_seq m r calls = (ress, r')"
  shows "\<exists>n' ids. counter r' = Some n' \<and> n \<le> n' \<and> sorted_wrt (<) ids \<and>
           (\<forall>i\<in>set ids. n < i \<and> i \<le> n') \<and> map Encode ids = map Some (codes ress)"
  using assms
proof (induction calls arbitrary: r n ress)
  case Nil
  then have "counter r' = Some n \<and> n \<le> n \<and> sorted_wrt (<) ([]::int list) \<and>
      (\<forall>i\<in>set ([]::int list). n < i \<and> i \<le> n) \<and> map Encode [] = map Some (codes ress)"
    by auto
  then show ?case by blast
next
  case (Cons call calls)
  obtain now u t where call: "call = (now, u, t)" by (cases call) auto
  obtain res r1 where s1: "Shorten m now r u t = (res, r1)" by (cases "Shorten m now r u t")
  obtain ress1 where rest: "Shorten_seq m r1 calls = (ress1, r')" and ress: "ress = res # ress1"
    using Cons.prems(3) call s1 by (auto split: prod.splits)
  have wf1: "well_formed r1" using well_formed_Shorten [OF Cons.prems(1) s1] .
  from Shorten_step [OF Cons.prems(1,2) s1]
  consider (same) "isl res" "counter r1 = Some n"
    | (incremented) "counter r1 = Some (n + 1)" "\<forall>c. res = Inr c \<longrightarrow> Encode (n + 1) = Some c"
    using Cons.prems(2) by (auto simp: counter_def)
  then show ?case
  proof cases
    case same
    from Cons.IH [OF wf1 same(2) rest] same(1) ress show ?thesis
      by (cases res) auto
  next
    case incremented
    from Cons.IH [OF wf1 incremented(1) rest]
    obtain n' ids where ih: "counter r' = Some n'" "n + 1 \<le> n'" "sorted_wrt (<) ids"
      "\<forall>i\<in>set ids. n + 1 < i \<and> i \<le> n'" "map Encode ids = map Some (codes ress1)"
      by blast
    show ?thesis
    proof (cases res)
      case (Inl e)
      with ih ress have "counter r' = Some n' \<and> n \<le> n' \<and> sorted_wrt (<) ids \<and>
          (\<forall>i\<in>set ids. n < i \<and> i \<le> n') \<and> map Encode ids = map Some (codes ress)"
        by auto
      then show ?thesis by blast
    next
      case (Inr c)
      with incremented(2) have "Encode (n + 1) = Some c" by simp
      with ih ress Inr
      have "counter r' = Some n' \<and> n \<le> n' \<and> sorted_wrt (<) ((n + 1) # ids) \<and>
          (\<forall>i\<in>set ((n + 1) # ids). n < i \<and> i \<le> n') \<and>
          map Encode ((n + 1) # ids) = map Some (codes ress)"
        by auto
      then show ?thesis by blast
    qed
  qed
qed

lemma distinct_codes:
  assumes "sorted_wrt (<) (ids :: int list)" and "map Encode ids = map Some cs"
  shows "distinct cs"
proof -
  have "distinct ids" using assms(1) by (simp add: strict_sorted_iff)
  moreover have "inj_on Encode (set ids)"
  proof (rule inj_onI)
    fix i j assume i: "i \<in> set ids" and eq: "Encode i = Encode j"
    from i have "Encode i \<in> set (map Some cs)" using assms(2) by (metis image_eqI set_map)
    then obtain c where "Encode i = Some c" by auto
    with eq show "i = j" using Encode_inj by metis
  qed
  ultimately have "distinct (map Encode ids)" by (simp add: distinct_map)
  then show ?thesis using assms(2) by (simp add: distinct_map)
qed

text \<open>
  Calls made one after the other. In every state the service can reach, when each call of
  \<open>Shorten\<close> returns before the next one starts: the counter never goes down; the
  identifiers behind the codes that are returned are strictly increasing, each greater
  than the counter before the calls; and the returned codes are pairwise distinct
  (whether the URLs are distinct or not).
\<close>

lemma codes_distinct_one_after_the_other:
  assumes "reachable r" and "Shorten_seq marshal r calls = (ress, r')"
  shows "distinct (codes ress) \<and>
         (\<exists>n n' ids. counter r = Some n \<and> counter r' = Some n' \<and> n \<le> n' \<and>
            sorted_wrt (<) ids \<and> (\<forall>i\<in>set ids. n < i \<and> i \<le> n') \<and>
            map Encode ids = map Some (codes ress))"
proof -
  have wf: "well_formed r" using assms(1) by (rule reachable_well_formed)
  then obtain n where cnt: "counter r = Some n" by (auto simp: well_formed_def)
  from Shorten_seq_ids [OF wf cnt assms(2)]
  obtain n' ids where ids: "counter r' = Some n'" "n \<le> n'" "sorted_wrt (<) ids"
    "\<forall>i\<in>set ids. n < i \<and> i \<le> n'" "map Encode ids = map Some (codes ress)"
    by blast
  have "distinct (codes ress)" using distinct_codes [OF ids(3,5)] .
  with cnt ids show ?thesis by blast
qed

section \<open>The same URL twice\<close>

text \<open>
  Claim C1 does not hold of the code. The lookup reads the key made from the
  fingerprint of the URL, and the write at line 75 stores the URL under the key made from
  the new code, so in no state the service can reach the lookup finds anything. On an
  empty backend without faults, the first call for a URL returns the code \<open>1\<close> and the
  second call for the same URL returns the code \<open>2\<close>.
\<close>

theorem same_url_twice_gets_two_codes:
  "fst (Shorten_seq marshal_plain (fresh [])
          [(''2019-12-12 12:12:12'', ''https://www.baidu.com'', 60),
           (''2019-12-12 12:12:13'', ''https://www.baidu.com'', 60)]) = [Inr ''1'', Inr ''2'']"
proof -
  obtain d1 d2 where "marshal_plain \<lparr>URL = ''https://www.baidu.com'',
      CreatedAt = ''2019-12-12 12:12:12'', ExpirationInMinutes = 60\<rparr> = Inr d1"
    "marshal_plain \<lparr>URL = ''https://www.baidu.com'',
      CreatedAt = ''2019-12-12 12:12:13'', ExpirationInMinutes = 60\<rparr> = Inr d2"
    using marshal_plain_Inr by metis
  then show ?thesis by (rule two_calls [where m = marshal_plain])
qed

section \<open>The records of a new code\<close>

lemma minutes_exact:
  assumes "0 < sint t" and "sint t \<le> 153722867"
  shows "sint (Minute * t) = 60000000000 * sint t"
proof -
  have "sint Minute = 60000000000" by (simp add: Minute_def)
  then have "sint (Minute * t) = signed_take_bit 63 (60000000000 * sint t)"
    by (simp add: sint_word_ariths)
  moreover have "- (2 ^ 63) \<le> 60000000000 * sint t" "60000000000 * sint t < 2 ^ 63"
    using assms by simp_all
  ultimately show ?thesis
    by (simp add: signed_take_bit_int_eq_self)
qed

lemma Shorten_success:
  assumes wf: "well_formed r" and cnt: "counter r = Some n" and lt: "n < 2 ^ 63 - 1"
    and run: "Shorten m now r u t = (Inr c, r')"
  shows "c = to_symbols alphabet (nat (n + 1)) \<and>
         (\<exists>detail. m \<lparr>URL = u, CreatedAt = now, ExpirationInMinutes = t\<rparr> = Inr detail \<and>
            r' = r\<lparr>store := (bump (store r) (n + 1))
                  (Sprintf ShortlinkKey c \<mapsto> \<lparr>val = u, ttl = Some (Minute * t)\<rparr>,
                   Sprintf URLHashKey c \<mapsto> \<lparr>val = u, ttl = Some (Minute * t)\<rparr>,
                   Sprintf ShortlinkDetailKey c \<mapsto> \<lparr>val = detail, ttl = Some (Minute * t)\<rparr>),
              faults := drop 6 (faults r)\<rparr>)"
proof -
  let ?r0 = "r\<lparr>faults := tl (faults r)\<rparr>"
  let ?r2 = "r\<lparr>store := bump (store r) (n + 1), faults := tl (tl (tl (faults r)))\<rparr>"
  let ?eid = "to_symbols alphabet (nat (n + 1))"
  have n: "0 \<le> n" using wf cnt by (auto simp: well_formed_def)
  have f1: "next_fault r = None"
    using run by (cases "next_fault r") (auto simp: Shorten_miss [OF wf])
  then have alloc: "Shorten_alloc m now ?r0 u t = (Inr c, r')"
    using run by (simp add: Shorten_miss [OF wf])
  have f2: "next_fault ?r0 = None"
    using alloc
    by (cases "next_fault ?r0") (auto simp: Shorten_alloc_def Incr_def roundtrip_def)
  have cnt0: "counter ?r0 = Some n" using cnt by (simp add: counter_def)
  note ar = Shorten_alloc_run [OF f2 cnt0 n lt, of m now u t]
  have f3: "next_fault (?r0\<lparr>faults := tl (faults ?r0)\<rparr>) = None"
    using alloc ar by (cases "next_fault (?r0\<lparr>faults := tl (faults ?r0)\<rparr>)") auto
  with alloc ar have w: "Shorten_write m now ?r2 ?eid u t = (Inr c, r')"
    by simp
  then show ?thesis
    by (auto simp: Shorten_write_def Set_def roundtrip_def eval_nat_numeral drop_tl
        split: option.splits sum.splits)
qed

lemma Shorten_write_fails:
  assumes "well_formed r" and "counter r = Some n" and "n < 2 ^ 63 - 1"
    and "faults r = None # None # None # fs'"
  shows "Shorten m now r u t =
           Shorten_write m now (r\<lparr>store := bump (store r) (n + 1), faults := fs'\<rparr>)
             (to_symbols alphabet (nat (n + 1))) u t"
proof -
  let ?r0 = "r\<lparr>faults := tl (faults r)\<rparr>"
  have n: "0 \<le> n" using assms(1,2) by (auto simp: well_formed_def)
  have f: "next_fault r = None" "next_fault ?r0 = None"
    "next_fault (?r0\<lparr>faults := tl (faults ?r0)\<rparr>) = None"
    using assms(4) by (simp_all add: next_fault_def)
  have cnt0: "counter ?r0 = Some n" using assms(2) by (simp add: counter_def)
  show ?thesis
    using Shorten_alloc_run [OF f(2) cnt0 n assms(3), of m now u t] f(1,3) assms(4)
    by (simp add: Shorten_miss [OF assms(1)])
qed

text \<open>
  Claim C7, with the bound that the arithmetic of \<open>time.Duration\<close> needs. In every
  state the service can reach, with the counter at \<open>n\<close>, and for an expiration of \<open>t\<close>
  minutes with \<open>0 < t \<le> 153722867\<close>: the duration \<open>d\<close> handed to the backend is \<open>t\<close>
  minutes; a call of \<open>Shorten\<close> that returns a code returns the code \<open>c\<close> of \<open>n + 1\<close>
  and leaves the backend with the counter incremented and exactly three more records,
  the URL under \<open>shortlink:c:url\<close> and under \<open>urlhash:c:url\<close> and the serialized
  detail under \<open>shortlink:c:detail\<close>, each with the expiration \<open>d\<close>; when the first,
  second or third of these writes fails, \<open>Shorten\<close> returns the error of that write, and
  the counter and the records written before it stay in the backend.
\<close>

theorem three_records_written:
  assumes "reachable r" and "counter r = Some n" and "n < 2 ^ 63 - 1"
    and "0 < sint t" and "sint t \<le> 153722867"
    and "c = to_symbols alphabet (nat (n + 1))" and "d = Minute * t"
  shows "sint d = 60000000000 * sint t
    \<and> (Shorten marshal now r u t = (Inr c', r') \<longrightarrow>
         c' = c \<and>
         (\<exists>detail. marshal \<lparr>URL = u, CreatedAt = now, ExpirationInMinutes = t\<rparr> = Inr detail \<and>
            r' = r\<lparr>store := (bump (store r) (n + 1))
                  (Sprintf ShortlinkKey c \<mapsto> \<lparr>val = u, ttl = Some d\<rparr>,
                   Sprintf URLHashKey c \<mapsto> \<lparr>val = u, ttl = Some d\<rparr>,
                   Sprintf ShortlinkDetailKey c \<mapsto> \<lparr>val = detail, ttl = Some d\<rparr>),
              faults := drop 6 (faults r)\<rparr>))
    \<and> (faults r = None # None # None # Some msg # fs \<longrightarrow>
         Shorten marshal now r u t =
           (Inl (redis_Error msg), r\<lparr>store := bump (store r) (n + 1), faults := fs\<rparr>))
    \<and> (faults r = None # None # None # None # Some msg # fs \<longrightarrow>
         Shorten marshal now r u t =
           (Inl (redis_Error msg),
            r\<lparr>store := (bump (store r) (n + 1))
                  (Sprintf ShortlinkKey c \<mapsto> \<lparr>val = u, ttl = Some d\<rparr>),
              faults := fs\<rparr>))
    \<and> (faults r = None # None # None # None # None # Some msg # fs \<longrightarrow>
         marshal \<lparr>URL = u, CreatedAt = now, ExpirationInMinutes = t\<rparr> = Inr detail \<longrightarrow>
         Shorten marshal now r u t =
           (Inl (redis_Error msg),
            r\<lparr>store := (bump (store r) (n + 1))
                  (Sprintf ShortlinkKey c \<mapsto> \<lparr>val = u, ttl = Some d\<rparr>,
                   Sprintf URLHashKey c \<mapsto> \<lparr>val = u, ttl = Some d\<rparr>),
              faults := fs\<rparr>))"
proof -
  have wf: "well_formed r" using assms(1) by (rule reachable_well_formed)
  have A: "sint d = 60000000000 * sint t"
    unfolding assms(7) using assms(4,5) by (rule minutes_exact)
  have B: "c' = c \<and>
         (\<exists>detail. marshal \<lparr>URL = u, CreatedAt = now, ExpirationInMinutes = t\<rparr> = Inr detail \<and>
            r' = r\<lparr>store := (bump (store r) (n + 1))
                  (Sprintf ShortlinkKey c \<mapsto> \<lparr>val = u, ttl = Some d\<rparr>,
                   Sprintf URLHashKey c \<mapsto> \<lparr>val = u, ttl = Some d\<rparr>,
                   Sprintf ShortlinkDetailKey c \<mapsto> \<lparr>val = detail, ttl = Some d\<rparr>),
              faults := drop 6 (faults r)\<rparr>)"
    if "Shorten marshal now r u t = (Inr c', r')"
    using Shorten_success [OF wf assms(2,3) that] assms(6,7) by auto
  have C: "Shorten marshal now r u t =
           (Inl (redis_Error msg), r\<lparr>store := bump (store r) (n + 1), faults := fs\<rparr>)"
    if "faults r = None # None # None # Some msg # fs"
    using Shorten_write_fails [OF wf assms(2,3) that, of marshal now u t]
    by (simp add: Shorten_write_def Set_def roundtrip_def next_fault_def)
  have D: "Shorten marshal now r u t =
           (Inl (redis_Error msg),
            r\<lparr>store := (bump (store r) (n + 1))
                  (Sprintf ShortlinkKey c \<mapsto> \<lparr>val = u, ttl = Some d\<rparr>),
              faults := fs\<rparr>)"
    if "faults r = None # None # None # None # Some msg # fs"
    using Shorten_write_fails [OF wf assms(2,3) that, of marshal now u t] assms(6,7)
    by (simp add: Shorten_write_def Set_def roundtrip_def next_fault_def)
  have E: "Shorten marshal now r u t =
           (Inl (redis_Error msg),
            r\<lparr>store := (bump (store r) (n + 1))
                  (Sprintf ShortlinkKey c \<mapsto> \<lparr>val = u, ttl = Some d\<rparr>,
                   Sprintf URLHashKey c \<mapsto> \<lparr>val = u, ttl = Some d\<rparr>),
              faults := fs\<rparr>)"
    if "faults r = None # None # None # None # None # Some msg # fs"
      and "marshal \<lparr>URL = u, CreatedAt = now, ExpirationInMinutes = t\<rparr> = Inr detail"
    using Shorten_write_fails [OF wf assms(2,3) that(1), of marshal now u t] assms(6,7) that(2)
    by (simp add: Shorten_write_def Set_def roundtrip_def next_fault_def)
  from A B C D E show ?thesis by blast
qed

theorem three_records_written_witness:
  "reachable (fresh []) \<and> counter (fresh []) = Some 0 \<and> (0::int) < 2 ^ 63 - 1
   \<and> 0 < sint (60::int64) \<and> sint (60::int64) \<le> 153722867
   \<and> sint (Minute * 60) = 60000000000 * sint (60::int64)
   \<and> fst (Shorten marshal_plain ''2019-12-12 12:12:12'' (fresh []) ''https://www.baidu.com'' 60)
       = Inr ''1''
   \<and> (\<exists>detail.
        marshal_plain \<lparr>URL = ''https://www.baidu.com'', CreatedAt = ''2019-12-12 12:12:12'',
          ExpirationInMinutes = 60\<rparr> = Inr detail \<and>
        snd (Shorten marshal_plain ''2019-12-12 12:12:12'' (fresh []) ''https://www.baidu.com'' 60)
          = (fresh [])\<lparr>store := (bump (store (fresh [])) (0 + 1))
                (Sprintf ShortlinkKey ''1''
                   \<mapsto> \<lparr>val = ''https://www.baidu.com'', ttl = Some (Minute * 60)\<rparr>,
                 Sprintf URLHashKey ''1''
                   \<mapsto> \<lparr>val = ''https://www.baidu.com'', ttl = Some (Minute * 60)\<rparr>,
                 Sprintf ShortlinkDetailKey ''1'' \<mapsto> \<lparr>val = detail, ttl = Some (Minute * 60)\<rparr>),
              faults := drop 6 (faults (fresh []))\<rparr>)
   \<and> Shorten marshal_plain ''2019-12-12 12:12:12'' (fresh [None, None, None, Some ''EOF''])
        ''https://www.baidu.com'' 60
       = (Inl (redis_Error ''EOF''),
          (fresh [None, None, None, Some ''EOF''])
            \<lparr>store := bump (store (fresh [None, None, None, Some ''EOF''])) (0 + 1),
              faults := []\<rparr>)
   \<and> Shorten marshal_plain ''2019-12-12 12:12:12'' (fresh [None, None, None, None, Some ''EOF''])
        ''https://www.baidu.com'' 60
       = (Inl (redis_Error ''EOF''),
          (fresh [None, None, None, None, Some ''EOF''])
            \<lparr>store := (bump (store (fresh [None, None, None, None, Some ''EOF''])) (0 + 1))
                (Sprintf ShortlinkKey ''1''
                   \<mapsto> \<lparr>val = ''https://www.baidu.com'', ttl = Some (Minute * 60)\<rparr>),
              faults := []\<rparr>)
   \<and> Shorten marshal_plain ''2019-12-12 12:12:12''
        (fresh [None, None, None, None, None, Some ''EOF'']) ''https://www.baidu.com'' 60
       = (Inl (redis_Error ''EOF''),
          (fresh [None, None, None, None, None, Some ''EOF''])
            \<lparr>store := (bump (store (fresh [None, None, None, None, None, Some ''EOF''])) (0 + 1))
                (Sprintf ShortlinkKey ''1''
                   \<mapsto> \<lparr>val = ''https://www.baidu.com'', ttl = Some (Minute * 60)\<rparr>,
                 Sprintf URLHashKey ''1''
                   \<mapsto> \<lparr>val = ''https://www.baidu.com'', ttl = Some (Minute * 60)\<rparr>),
              faults := []\<rparr>)"
proof -
  let ?T = "''2019-12-12 12:12:12''" and ?U = "''https://www.baidu.com''"
  let ?run = "Shorten marshal_plain ?T (fresh []) ?U 60"
  obtain detail where m: "marshal_plain \<lparr>URL = ?U, CreatedAt = ?T, ExpirationInMinutes = 60\<rparr>
      = Inr detail"
    using marshal_plain_Inr by blast
  have hr: "reachable (fresh fs)" "counter (fresh fs) = Some 0" for fs
    by (simp_all add: reachable.start counter_fresh)
  have hc: "(0::int) < 2 ^ 63 - 1" "0 < sint (60::int64)" "sint (60::int64) \<le> 153722867"
    "''1'' = to_symbols alphabet (nat (0 + 1))" "Minute * 60 = Minute * (60::int64)"
    using to_symbols_small(1) by (simp_all del: One_nat_def)
  note t = three_records_written [where marshal = marshal_plain and now = ?T and u = ?U
      and msg = "''EOF''" and fs = "[]" and c' = "''1''" and r' = "snd ?run"
      and detail = detail]
  have b: "fst ?run = Inr ''1''"
    using first_call(1) [where m = marshal_plain, OF m] .
  then have b': "?run = (Inr ''1'', snd ?run)" by (metis prod.collapse)
  have f: "faults (fresh [None, None, None, Some ''EOF'']) = [None, None, None, Some ''EOF'']"
    "faults (fresh [None, None, None, None, Some ''EOF''])
       = [None, None, None, None, Some ''EOF'']"
    "faults (fresh [None, None, None, None, None, Some ''EOF''])
       = [None, None, None, None, None, Some ''EOF'']"
    by (simp_all add: fresh_def)
  from t [OF hr [of "[]"] hc] have "sint (Minute * 60) = 60000000000 * sint (60::int64)" by blast
  moreover from t [OF hr [of "[]"] hc] b'
  have "\<exists>detail.
        marshal_plain \<lparr>URL = ?U, CreatedAt = ?T, ExpirationInMinutes = 60\<rparr> = Inr detail \<and>
        snd ?run = (fresh [])\<lparr>store := (bump (store (fresh [])) (0 + 1))
                (Sprintf ShortlinkKey ''1'' \<mapsto> \<lparr>val = ?U, ttl = Some (Minute * 60)\<rparr>,
                 Sprintf URLHashKey ''1'' \<mapsto> \<lparr>val = ?U, ttl = Some (Minute * 60)\<rparr>,
                 Sprintf ShortlinkDetailKey ''1'' \<mapsto> \<lparr>val = detail, ttl = Some (Minute * 60)\<rparr>),
              faults := drop 6 (faults (fresh []))\<rparr>"
    by blast
  moreover from t [OF hr [of "[None, None, None, Some ''EOF'']"] hc] f(1)
  have "Shorten marshal_plain ?T (fresh [None, None, None, Some ''EOF'']) ?U 60
       = (Inl (redis_Error ''EOF''),
          (fresh [None, None, None, Some ''EOF''])
            \<lparr>store := bump (store (fresh [None, None, None, Some ''EOF''])) (0 + 1),
              faults := []\<rparr>)"
    by blast
  moreover from t [OF hr [of "[None, None, None, None, Some ''EOF'']"] hc] f(2)
  have "Shorten marshal_plain ?T (fresh [None, None, None, None, Some ''EOF'']) ?U 60
       = (Inl (redis_Error ''EOF''),
          (fresh [None, None, None, None, Some ''EOF''])
            \<lparr>store := (bump (store (fresh [None, None, None, None, Some ''EOF''])) (0 + 1))
                (Sprintf ShortlinkKey ''1'' \<mapsto> \<lparr>val = ?U, ttl = Some (Minute * 60)\<rparr>),
              faults := []\<rparr>)"
    by blast
  moreover from t [OF hr [of "[None, None, None, None, None, Some ''EOF'']"] hc] f(3) m
  have "Shorten marshal_plain ?T (fresh [None, None, None, None, None, Some ''EOF'']) ?U 60
       = (Inl (redis_Error ''EOF''),
          (fresh [None, None, None, None, None, Some ''EOF''])
            \<lparr>store := (bump (store (fresh [None, None, None, None, None, Some ''EOF''])) (0 + 1))
                (Sprintf ShortlinkKey ''1'' \<mapsto> \<lparr>val = ?U, ttl = Some (Minute * 60)\<rparr>,
                 Sprintf URLHashKey ''1'' \<mapsto> \<lparr>val = ?U, ttl = Some (Minute * 60)\<rparr>),
              faults := []\<rparr>)"
    by blast
  ultimately show ?thesis
    using hr [of "[]"] hc(1-3) b by blast
qed

text \<open>
  Without the bound the claim fails: for 153722868 minutes the product with
  \<open>time.Minute\<close> wraps around in 64 bits, and the expiration stored with the record is a
  negative duration, not 153722868 minutes.
\<close>

theorem three_records_written_counterexample:
  "0 < sint (153722868::int64)
   \<and> fst (Shorten marshal_plain ''2019-12-12 12:12:12'' (fresh []) ''https://www.baidu.com''
        153722868) = Inr ''1''
   \<and> store (snd (Shorten marshal_plain ''2019-12-12 12:12:12'' (fresh [])
        ''https://www.baidu.com'' 153722868)) (Sprintf ShortlinkKey ''1'')
       = Some \<lparr>val = ''https://www.baidu.com'', ttl = Some (Minute * 153722868)\<rparr>
   \<and> sint (Minute * 153722868) = - 9223371993709551616
   \<and> sint (Minute * 153722868) \<noteq> 60000000000 * sint (153722868::int64)"
proof -
  obtain detail where m: "marshal_plain \<lparr>URL = ''https://www.baidu.com'',
      CreatedAt = ''2019-12-12 12:12:12'', ExpirationInMinutes = 153722868\<rparr> = Inr detail"
    using marshal_plain_Inr by blast
  have "sint (Minute * 153722868) = - 9223371993709551616"
    by (simp add: Minute_def)
  then show ?thesis
    using first_call(1,4) [where m = marshal_plain, OF m] by simp
qed

section \<open>Two callers at once\<close>

text \<open>
  Run without another caller in between, the six commands of a call are the call.
\<close>

lemma Shorten_cmds_Done: "Shorten_cmds m now u t k (Done res, r) = (Done res, r)"
  by (induction k) simp_all

lemma Shorten_as_commands:
  "Shorten_cmds m now u t 6 (Lookup, r) =
     (case Shorten m now r u t of (res, r') \<Rightarrow> (Done res, r'))"
  by (simp add: eval_nat_numeral Shorten_def Shorten_alloc_def Shorten_write_def
      Shorten_cmds_Done split: prod.splits sum.splits option.splits)

text \<open>
  Claim C6 does not hold of the code. Line 59 drops the reply of the increment and line
  64 reads the counter with a separate command, so the identifier a call encodes is what
  the counter holds when the call reads it, not what its own increment produced. Take
  two callers with the distinct URLs \<open>https://www.baidu.com\<close> and
  \<open>https://example.com\<close> on an empty backend without faults, whose commands arrive in
  the order lookup, lookup, increment, increment, read, read, and then the three writes
  of the first and the three writes of the second. Both calls return the code \<open>2\<close>:
  the counter is 2, the record \<open>shortlink:2:url\<close> holds the URL of the second caller,
  which has overwritten the URL of the first, and no record exists under the code \<open>1\<close>.
\<close>

theorem two_callers_get_the_same_code:
  "fst two_callers = Done (Inr ''2'')
   \<and> fst (snd two_callers) = Done (Inr ''2'')
   \<and> counter (snd (snd two_callers)) = Some 2
   \<and> map_option val (store (snd (snd two_callers)) (Sprintf ShortlinkKey ''2''))
       = Some ''https://example.com''
   \<and> store (snd (snd two_callers)) (Sprintf ShortlinkKey ''1'') = None"
proof -
  have one: "FormatInt 1 = ''1''" and two: "FormatInt 2 = ''2''"
    by (simp_all add: FormatInt_def to_symbols.simps decimal_def)
  have p1: "string2ll ''1'' = Some 1"
    using string2ll_FormatInt [of 1] by (simp add: one)
  have p2: "ParseInt ''2'' = Some 2" "string2ll ''2'' = Some 2"
    using ParseInt_FormatInt [of 2] string2ll_FormatInt [of 2] by (simp_all add: two)
  have e2: "Encode 2 = Some ''2''"
    by (simp add: Encode_def to_symbols_small)
  have l: "Shorten_cmd marshal_plain now u t Lookup (fresh []) = (Increment, fresh [])" for now u t
    by (simp add: Get_def roundtrip_def next_fault_def fresh_def)
  note defs = Get_def Incr_def Set_def roundtrip_def next_fault_def fresh_def Int64_def
      one two p1 p2 e2 marshal_plain_def counter_def keys_distinct keys_inject
  have "fst two_callers = Done (Inr ''2'')"
    unfolding two_callers_def
    by (simp only: interleave.simps l prod.case) (simp add: defs)
  moreover have "fst (snd two_callers) = Done (Inr ''2'')"
    unfolding two_callers_def
    by (simp only: interleave.simps l prod.case) (simp add: defs)
  moreover have "counter (snd (snd two_callers)) = Some 2"
    unfolding two_callers_def
    by (simp only: interleave.simps l prod.case) (simp add: defs)
  moreover have "map_option val (store (snd (snd two_callers)) (Sprintf ShortlinkKey ''2''))
       = Some ''https://example.com''"
    unfolding two_callers_def
    by (simp only: interleave.simps l prod.case) (simp add: defs)
  moreover have "store (snd (snd two_callers)) (Sprintf ShortlinkKey ''1'') = None"
    unfolding two_callers_def
    by (simp only: interleave.simps l prod.case) (simp add: defs)
  ultimately show ?thesis by blast
qed

end
